theory Spec2Isabelle
  imports Complex_Main "HOL-Library.Word" "HOL-Library.Log_Nat"
begin

section \<open>The knapsack repair operator of the repair tutorial\<close>

text \<open>
  The source is the class \<open>ConsiderMaximumWeightRepair\<close> of
  \<^verbatim>\<open>doc/source/tutorial/repair.ipynb\<close>:
  \<^verbatim>\<open>
    def _do(self, problem, pop, **kwargs):
        Q = problem.C
        Z = pop.get("X")
        weights = (Z * problem.W).sum(axis=1)
        for i in range(len(Z)):
            z = Z[i]
            while weights[i] > Q:
                item_to_remove = np.random.choice(np.where(z)[0])
                z[item_to_remove] = False
                weights[i] -= problem.W[item_to_remove]
        pop.set("X", Z)
        return pop
  \<close>
  A packing plan is a list of booleans. The weights and the capacity are numpy values,
  and the products, the sums, the subtraction and the comparison of the body are
  computed in the dtype of \<open>problem.W\<close>: the arithmetic is a parameter of the model,
  given below for int64 (which wraps around) and for float64 (which rounds).
\<close>

subsection \<open>Data model\<close>

text \<open>
  An individual carries its decision vector \<open>X\<close> and the cached results of an
  evaluation, \<open>F\<close> and \<open>CV\<close>, unset (\<open>None\<close>) before it is evaluated. The record
  is extensible, so that every further attribute of an individual is part of its value.
\<close>

record individual =
  X :: "bool list"
  F :: "int option"
  CV :: "int option"

type_synonym population = "individual list"

text \<open>
  What the body does with values of the dtype: \<open>b * x\<close> for a boolean \<open>b\<close>, the sum of a
  row of products, \<open>x - y\<close> and \<open>x > y\<close>.
\<close>

record 'a arithmetic =
  mul_bool :: "bool \<Rightarrow> 'a \<Rightarrow> 'a"
  sum_row :: "'a list \<Rightarrow> 'a"
  sub :: "'a \<Rightarrow> 'a \<Rightarrow> 'a"
  gt :: "'a \<Rightarrow> 'a \<Rightarrow> bool"

text \<open>
  The two fields of the problem that the operator reads, capacity and item weights,
  with the arithmetic of their dtype.
\<close>

record 'a problem =
  dtype :: "'a arithmetic"
  C :: 'a
  W :: "'a list"

text \<open>
  int64, numpy's default integer dtype: two's complement words of 64 bits. Sums,
  products and differences wrap around, the comparison is signed.
\<close>

definition int64 :: "64 word arithmetic" where
  "int64 =
     \<lparr>mul_bool = (\<lambda>b x. of_bool b * x),
      sum_row = sum_list,
      sub = (\<lambda>x y. x - y),
      gt = (\<lambda>x y. y <s x)\<rparr>"

text \<open>
  float64: the finite doubles, as the rationals they denote. The result of an addition
  or a subtraction is the exact result rounded to the nearest double, to the even
  significand on a tie: \<open>binade x\<close> is the exponent \<open>e\<close> for which \<open>|x|\<close> is at least
  \<open>2\<close> to the \<open>e\<close> and below \<open>2\<close> to the \<open>e + 1\<close>, and the doubles of that binade are the
  multiples of \<open>2\<close> to the \<open>e - 52\<close> (a significand of 53 bits). Subnormal results and
  results beyond the largest double are not modelled. A product by a boolean is exact.
  The row is summed from the left; a row with at most two non-zero products has the
  same sum in every order.
\<close>

definition round_half_even :: "rat \<Rightarrow> int" where
  "round_half_even x =
     (let f = \<lfloor>x\<rfloor>; r = x - of_int f
      in if r < 1 / 2 then f else if 1 / 2 < r then f + 1 else if even f then f else f + 1)"

definition binade :: "rat \<Rightarrow> int" where
  "binade x =
     (let (a, b) = quotient_of \<bar>x\<bar>; k = bitlen a - bitlen b
      in if 2 powi k \<le> \<bar>x\<bar> then k else k - 1)"

definition float64_round :: "rat \<Rightarrow> rat" where
  "float64_round x =
     (if x = 0 then 0
      else let u = 2 powi (binade x - 52) in of_int (round_half_even (x / u)) * u)"

definition float64 :: "rat arithmetic" where
  "float64 =
     \<lparr>mul_bool = (\<lambda>b x. if b then x else 0),
      sum_row = foldl (\<lambda>s x. float64_round (s + x)) 0,
      sub = (\<lambda>x y. float64_round (x - y)),
      gt = (\<lambda>x y. y < x)\<rparr>"

text \<open>The exceptions the operator's body can raise (both come from numpy).\<close>

datatype error = ValueError | IndexError

subsection \<open>The random source\<close>

text \<open>
  \<open>np.random\<close> is a generator held in global state. Its state is abstracted to the
  infinite sequence of raw draws it is going to produce: a call consumes the first draw
  and leaves the rest. Statements quantify over every such sequence, that is, over every
  behaviour of the generator.
\<close>

type_synonym random_state = "nat \<Rightarrow> nat"

text \<open>\<open>np.where(z)[0]\<close>: the indices of the true entries, ascending.\<close>

definition np_where :: "bool list \<Rightarrow> nat list" where
  "np_where z = filter (\<lambda>j. z ! j) [0..<length z]"

text \<open>
  \<open>np.random.choice(a)\<close> for a one-dimensional array \<open>a\<close>: raises \<open>ValueError\<close> on an
  empty array, and otherwise returns the element at a random position.
\<close>

definition random_choice :: "nat list \<Rightarrow> random_state \<Rightarrow> error + (nat \<times> random_state)" where
  "random_choice a rs =
     (if a = [] then Inl ValueError
      else Inr (a ! (rs 0 mod length a), \<lambda>n. rs (Suc n)))"

subsection \<open>Usage of a packing plan\<close>

text \<open>
  \<open>z * problem.W\<close> for one row \<open>z\<close> of \<open>Z\<close>, with numpy's broadcasting of the trailing
  axis: equal lengths multiply elementwise, an axis of length one is stretched to the
  other length, and any other pair of lengths raises \<open>ValueError\<close>.
\<close>

definition mul_broadcast :: "'a arithmetic \<Rightarrow> bool list \<Rightarrow> 'a list \<Rightarrow> error + 'a list" where
  "mul_broadcast D z w =
     (if length z = length w then Inr (map2 (mul_bool D) z w)
      else if length w = 1 then Inr (map (\<lambda>b. mul_bool D b (hd w)) z)
      else if length z = 1 then Inr (map (\<lambda>x. mul_bool D (hd z) x) w)
      else Inl ValueError)"

text \<open>\<open>(z * problem.W).sum()\<close>: the weight of one row.\<close>

definition row_weight :: "'a arithmetic \<Rightarrow> bool list \<Rightarrow> 'a list \<Rightarrow> error + 'a" where
  "row_weight D z w =
     (case mul_broadcast D z w of Inl e \<Rightarrow> Inl e | Inr p \<Rightarrow> Inr (sum_row D p))"

text \<open>
  \<open>(Z * problem.W).sum(axis=1)\<close>: one weight per row. The rows of \<open>Z\<close> all have the
  length of the problem's decision vector, so the broadcast succeeds for every row or
  for none.
\<close>

fun row_weights :: "'a arithmetic \<Rightarrow> bool list list \<Rightarrow> 'a list \<Rightarrow> error + 'a list" where
  "row_weights D [] w = Inr []"
| "row_weights D (z # Z) w =
     (case row_weight D z w of
        Inl e \<Rightarrow> Inl e
      | Inr u \<Rightarrow> (case row_weights D Z w of Inl e \<Rightarrow> Inl e | Inr us \<Rightarrow> Inr (u # us)))"

text \<open>
  The dot product of a packing plan and a vector of numbers, \<open>\<Sum>\<^sub>j z\<^sub>j w\<^sub>j\<close>, in exact
  arithmetic: the usage of the constraint that the tutorial states.
\<close>

definition dot :: "bool list \<Rightarrow> 'a::comm_ring_1 list \<Rightarrow> 'a" where
  "dot z w = (\<Sum>(b, x) \<leftarrow> zip z w. of_bool b * x)"

text \<open>The usage of a plan for int64 weights: the dot product with the numbers they denote.\<close>

definition usage :: "bool list \<Rightarrow> 64 word list \<Rightarrow> int" where
  "usage z w = dot z (map sint w)"

text \<open>
  The weights fit when the sum of their absolute values is below \<open>2\<^sup>6\<^sup>3\<close>: then no sum
  of some of them leaves the range of int64. For non-negative weights this bounds their
  total.
\<close>

definition fits_int64 :: "64 word list \<Rightarrow> bool" where
  "fits_int64 w = ((\<Sum>x\<leftarrow>w. \<bar>sint x\<bar>) < 2 ^ 63)"

subsection \<open>The removal loop\<close>

text \<open>
  One pass through the body of the \<open>while\<close> loop, on the row \<open>z\<close>, its tracked weight
  \<open>wt\<close> (the entry \<open>weights[i]\<close>) and the generator: choose a picked item, clear it,
  subtract its weight. \<open>problem.W[item_to_remove]\<close> raises \<open>IndexError\<close> out of range
  (the source clears the entry of \<open>z\<close> before this read; the pass raises either way).
\<close>

definition remove_item ::
  "'a arithmetic \<Rightarrow> 'a list \<Rightarrow> bool list \<Rightarrow> 'a \<Rightarrow> random_state
    \<Rightarrow> error + (bool list \<times> 'a \<times> random_state)" where
  "remove_item D w z wt rs =
     (case random_choice (np_where z) rs of
        Inl e \<Rightarrow> Inl e
      | Inr (item_to_remove, rs') \<Rightarrow>
          (if item_to_remove < length w
           then Inr (z[item_to_remove := False], sub D wt (w ! item_to_remove), rs')
           else Inl IndexError))"

lemma np_where_update:
  "np_where (z[i := False]) = filter (\<lambda>j. j \<noteq> i) (np_where z)"
proof -
  have "filter (\<lambda>j. z[i := False] ! j) [0..<length z] =
        filter (\<lambda>j. z ! j \<and> j \<noteq> i) [0..<length z]"
    by (rule filter_cong) (cases "i < length z"; auto simp: nth_list_update)+
  then show ?thesis by (simp add: np_where_def conj_commute)
qed

lemma random_choice_mem:
  "random_choice a rs = Inr (i, rs') \<Longrightarrow> i \<in> set a"
  by (auto simp: random_choice_def split: if_splits)

lemma remove_item_selected:
  assumes "remove_item D w z wt rs = Inr (z', wt', rs')"
  shows "\<exists>i \<in> set (np_where z). i < length w \<and> z' = z[i := False] \<and> wt' = sub D wt (w ! i)"
  using assms
  by (auto simp: remove_item_def split: sum.splits if_splits dest: random_choice_mem)

lemma remove_item_fewer:
  assumes "remove_item D w z wt rs = Inr (z', wt', rs')"
  shows "length (np_where z') < length (np_where z)"
proof -
  from remove_item_selected [OF assms] obtain i
    where i: "i \<in> set (np_where z)" and z': "z' = z[i := False]" by blast
  show ?thesis
    unfolding z' np_where_update using i by (rule length_filter_less) simp
qed

text \<open>
  \<open>while weights[i] > Q: ...\<close>. Every pass clears one picked item, so the number of
  picked items is a measure of the loop, whatever the arithmetic.
\<close>

function removal_loop ::
  "'a arithmetic \<Rightarrow> 'a \<Rightarrow> 'a list \<Rightarrow> bool list \<Rightarrow> 'a \<Rightarrow> random_state
    \<Rightarrow> error + (bool list \<times> 'a \<times> random_state)" where
  "removal_loop D Q w z wt rs =
     (if gt D wt Q then
        (case remove_item D w z wt rs of
           Inl e \<Rightarrow> Inl e
         | Inr (z', wt', rs') \<Rightarrow> removal_loop D Q w z' wt' rs')
      else Inr (z, wt, rs))"
  by pat_completeness auto
termination
  by (relation "measure (\<lambda>(D, Q, w, z, wt, rs). length (np_where z))")
     (auto dest: remove_item_fewer)

declare removal_loop.simps [simp del]

text \<open>
  The successive values of \<open>(z, weights[i])\<close> that the loop goes through, the starting
  value first: an observer of the same loop, one entry per test of the loop's condition
  that is reached with a row in hand. A pass that raises adds nothing.
\<close>

function removal_trace ::
  "'a arithmetic \<Rightarrow> 'a \<Rightarrow> 'a list \<Rightarrow> bool list \<Rightarrow> 'a \<Rightarrow> random_state
    \<Rightarrow> (bool list \<times> 'a) list" where
  "removal_trace D Q w z wt rs =
     (z, wt) #
     (if gt D wt Q then
        (case remove_item D w z wt rs of
           Inl e \<Rightarrow> []
         | Inr (z', wt', rs') \<Rightarrow> removal_trace D Q w z' wt' rs')
      else [])"
  by pat_completeness auto
termination
  by (relation "measure (\<lambda>(D, Q, w, z, wt, rs). length (np_where z))")
     (auto dest: remove_item_fewer)

declare removal_trace.simps [simp del]

text \<open>
  The number of passes through the body that the loop completes: one less than the
  number of states it goes through.
\<close>

definition removals ::
  "'a arithmetic \<Rightarrow> 'a \<Rightarrow> 'a list \<Rightarrow> bool list \<Rightarrow> 'a \<Rightarrow> random_state \<Rightarrow> nat" where
  "removals D Q w z wt rs = length (removal_trace D Q w z wt rs) - 1"

subsection \<open>The operator\<close>

text \<open>
  \<open>for i in range(len(Z)): ...\<close> over the rows and their weights, the generator passing
  from one row to the next; an exception in one row ends the whole call.
\<close>

fun repair_rows ::
  "'a arithmetic \<Rightarrow> 'a \<Rightarrow> 'a list \<Rightarrow> (bool list \<times> 'a) list \<Rightarrow> random_state
    \<Rightarrow> error + (bool list list \<times> random_state)" where
  "repair_rows D Q w [] rs = Inr ([], rs)"
| "repair_rows D Q w ((z, wt) # rows) rs =
     (case removal_loop D Q w z wt rs of
        Inl e \<Rightarrow> Inl e
      | Inr (z', wt', rs') \<Rightarrow>
          (case repair_rows D Q w rows rs' of
             Inl e \<Rightarrow> Inl e
           | Inr (Z', rs'') \<Rightarrow> Inr (z' # Z', rs'')))"

text \<open>
  Modelled from the spec: the class \<open>Population\<close> is not among the sources. The spec
  gives it bulk access to a field across the sequence: \<open>pop.get("X")\<close> retrieves all
  \<open>X\<close> as a matrix, one row per individual in order, and \<open>pop.set("X", Z)\<close> writes a
  batch of rows back, row \<open>i\<close> to individual \<open>i\<close>. A population has the positive
  size \<open>N\<close> of the configuration; for the empty list the matrix has no rows. A call
  that raises yields an error and no population.
\<close>

definition pop_get_X :: "'a individual_scheme list \<Rightarrow> bool list list" where
  "pop_get_X pop = map X pop"

definition pop_set_X ::
  "'a individual_scheme list \<Rightarrow> bool list list \<Rightarrow> 'a individual_scheme list" where
  "pop_set_X pop Z = map2 (\<lambda>ind x. ind\<lparr>X := x\<rparr>) pop Z"

text \<open>\<open>ConsiderMaximumWeightRepair._do\<close>, returning the population and the generator.\<close>

definition ConsiderMaximumWeightRepair_do ::
  "('n, 'b) problem_scheme \<Rightarrow> 'a individual_scheme list \<Rightarrow> random_state
    \<Rightarrow> error + ('a individual_scheme list \<times> random_state)" where
  "ConsiderMaximumWeightRepair_do problem pop rs =
     (let Q = C problem;
          Z = pop_get_X pop
      in case row_weights (dtype problem) Z (W problem) of
           Inl e \<Rightarrow> Inl e
         | Inr weights \<Rightarrow>
             (case repair_rows (dtype problem) Q (W problem) (zip Z weights) rs of
                Inl e \<Rightarrow> Inl e
              | Inr (Z', rs') \<Rightarrow> Inr (pop_set_X pop Z', rs')))"

subsection \<open>Constraint violation and profit\<close>

text \<open>
  Modelled from the spec: the evaluation of the problem is not among the sources. The
  tutorial states the constraint \<open>\<Sum>\<^sub>j z\<^sub>j w\<^sub>j \<le> Q\<close>, and the spec makes the constraint
  violation a non-negative number that is 0 exactly for a feasible individual: the
  amount by which the usage exceeds the capacity.
\<close>

definition constraint_violation :: "(64 word, 'b) problem_scheme \<Rightarrow> bool list \<Rightarrow> int" where
  "constraint_violation problem x = max 0 (usage x (W problem) - sint (C problem))"

text \<open>The profit \<open>g(z) = \<Sum>\<^sub>j z\<^sub>j b\<^sub>j\<close> of the tutorial, for item values \<open>b\<close>.\<close>

definition profit :: "bool list \<Rightarrow> int list \<Rightarrow> int" where
  "profit z b = dot z b"

text \<open>
  A row is within capacity, as the operator sees it, when its weight, computed afresh
  as the operator computes it, does not exceed the capacity in the comparison of the
  dtype.
\<close>

definition within_capacity :: "'a arithmetic \<Rightarrow> 'a \<Rightarrow> 'a list \<Rightarrow> bool list \<Rightarrow> bool" where
  "within_capacity D Q w z =
     (case row_weight D z w of Inl e \<Rightarrow> False | Inr u \<Rightarrow> \<not> gt D u Q)"

subsection \<open>Facts that hold in every arithmetic\<close>

text \<open>
  The abstraction of the generator loses no behaviour: every element of a non-empty
  array is the outcome of \<open>random_choice\<close> for some sequence of draws.
\<close>

lemma random_choice_any:
  assumes "i \<in> set a"
  shows "\<exists>rs rs'. random_choice a rs = Inr (i, rs')"
proof -
  from assms obtain k where k: "k < length a" "a ! k = i" by (auto simp: in_set_conv_nth)
  then have "random_choice a (\<lambda>n. k) = Inr (i, \<lambda>n. k)"
    using assms by (auto simp: random_choice_def)
  then show ?thesis by blast
qed

lemma np_where_mem: "i \<in> set (np_where z) \<longleftrightarrow> i < length z \<and> z ! i"
  by (auto simp: np_where_def)

lemma np_where_length: "length (np_where z) \<le> length z"
  using length_filter_le [of "\<lambda>j. z ! j" "[0..<length z]"] by (simp add: np_where_def)

lemma nth_clear_imp: "j < length y \<Longrightarrow> y[i := False] ! j \<Longrightarrow> y ! j"
  by (cases "i = j") auto

lemma zip_map_same: "zip Z (map f Z) = map (\<lambda>z. (z, f z)) Z"
  by (induction Z) simp_all

lemma removal_loop_stop:
  "\<not> gt D wt Q \<Longrightarrow> removal_loop D Q w z wt rs = Inr (z, wt, rs)"
  by (simp add: removal_loop.simps)

lemma removal_loop_step:
  "gt D wt Q \<Longrightarrow> remove_item D w z wt rs = Inr (z1, wt1, rs1) \<Longrightarrow>
     removal_loop D Q w z wt rs = removal_loop D Q w z1 wt1 rs1"
  by (subst removal_loop.simps) simp

lemma removal_loop_raise:
  "gt D wt Q \<Longrightarrow> remove_item D w z wt rs = Inl e \<Longrightarrow> removal_loop D Q w z wt rs = Inl e"
  by (subst removal_loop.simps) simp

lemma removal_loop_invariant:
  assumes "removal_loop D Q w z wt rs = Inr (z', wt', rs')"
    and "P z wt"
    and "\<And>z wt rs z1 wt1 rs1.
           P z wt \<Longrightarrow> gt D wt Q \<Longrightarrow> remove_item D w z wt rs = Inr (z1, wt1, rs1) \<Longrightarrow> P z1 wt1"
  shows "P z' wt' \<and> \<not> gt D wt' Q"
proof -
  have pres: "\<forall>z wt rs z1 wt1 rs1.
      P z wt \<longrightarrow> gt D wt Q \<longrightarrow> remove_item D w z wt rs = Inr (z1, wt1, rs1) \<longrightarrow> P z1 wt1"
    using assms(3) by blast
  from assms(1,2) pres show ?thesis
  proof (induction D Q w z wt rs rule: removal_loop.induct)
    case (1 D Q w z wt rs)
    show ?case
    proof (cases "gt D wt Q")
      case True
      show ?thesis
      proof (cases "remove_item D w z wt rs")
        case (Inl e)
        with True "1.prems"(1) show ?thesis by (simp add: removal_loop_raise)
      next
        case (Inr st)
        obtain z1 wt1 rs1 where st: "st = (z1, wt1, rs1)" by (cases st) auto
        have step: "remove_item D w z wt rs = Inr (z1, wt1, rs1)" using Inr st by simp
        have rec: "removal_loop D Q w z1 wt1 rs1 = Inr (z', wt', rs')"
          using "1.prems"(1) removal_loop_step [OF True step] by simp
        have "P z1 wt1" using "1.prems"(2,3) True step by blast
        with "1.IH" [OF True step refl refl rec] "1.prems"(3) show ?thesis by simp
      qed
    next
      case False
      with "1.prems" show ?thesis by (simp add: removal_loop_stop)
    qed
  qed
qed

lemma removal_loop_subset:
  assumes "removal_loop D Q w z wt rs = Inr (z', wt', rs')"
  shows "length z' = length z \<and> (\<forall>j<length z. z' ! j \<longrightarrow> z ! j)"
proof -
  let ?P = "\<lambda>y (t::'a). length y = length z \<and> (\<forall>j<length z. y ! j \<longrightarrow> z ! j)"
  have "?P z' wt' \<and> \<not> gt D wt' Q"
  proof (rule removal_loop_invariant [where P = ?P, OF assms])
    show "?P z wt" by simp
  next
    fix y t rs y1 t1 rs1
    assume P: "?P y t" and "gt D t Q"
      and step: "remove_item D w y t rs = Inr (y1, t1, rs1)"
    from remove_item_selected [OF step] obtain i where y1: "y1 = y[i := False]" by blast
    have "z ! j" if "j < length z" "y1 ! j" for j
    proof -
      have "j < length y" using P that(1) by simp
      then have "y ! j" using that(2) unfolding y1 by (rule nth_clear_imp)
      then show ?thesis using P that(1) by simp
    qed
    then show "?P y1 t1" using P y1 by simp
  qed
  then show ?thesis by simp
qed

lemma row_weights_nth:
  "row_weights D Z w = Inr us \<Longrightarrow>
     length us = length Z \<and> (\<forall>i<length Z. row_weight D (Z ! i) w = Inr (us ! i))"
proof (induction Z arbitrary: us)
  case Nil
  then show ?case by simp
next
  case (Cons z Z)
  from Cons.prems obtain u us' where
    u: "row_weight D z w = Inr u" and us': "row_weights D Z w = Inr us'" and us: "us = u # us'"
    by (auto split: sum.splits)
  from Cons.IH [OF us'] u us show ?case by (auto simp: nth_Cons split: nat.splits)
qed

lemma row_weights_returns:
  "\<forall>z\<in>set Z. \<exists>u. row_weight D z w = Inr u \<Longrightarrow>
     \<exists>us. row_weights D Z w = Inr us"
proof (induction Z)
  case Nil
  then show ?case by simp
next
  case (Cons z Z)
  then obtain u us where "row_weight D z w = Inr u" "row_weights D Z w = Inr us" by auto
  then show ?case by simp
qed

lemma repair_rows_nth:
  "repair_rows D Q w rows rs = Inr (Z', rs') \<Longrightarrow>
     length Z' = length rows \<and>
     (\<forall>i<length rows. \<exists>rs1 wt' rs2.
        removal_loop D Q w (fst (rows ! i)) (snd (rows ! i)) rs1 = Inr (Z' ! i, wt', rs2))"
proof (induction rows arbitrary: rs Z')
  case Nil
  then show ?case by simp
next
  case (Cons row rows)
  obtain z wt where row: "row = (z, wt)" by (cases row) auto
  from Cons.prems row obtain z1 wt1 rs1 Z1 where
    loop: "removal_loop D Q w z wt rs = Inr (z1, wt1, rs1)"
    and rest: "repair_rows D Q w rows rs1 = Inr (Z1, rs')" and Z': "Z' = z1 # Z1"
    by (auto split: sum.splits)
  from Cons.IH [OF rest] have
    len: "length Z1 = length rows" and
    nth: "\<forall>i<length rows. \<exists>rs1 wt' rs2.
        removal_loop D Q w (fst (rows ! i)) (snd (rows ! i)) rs1 = Inr (Z1 ! i, wt', rs2)"
    by simp_all
  have "\<exists>rs1 wt' rs2.
        removal_loop D Q w (fst ((row # rows) ! i)) (snd ((row # rows) ! i)) rs1
          = Inr (Z' ! i, wt', rs2)" if "i < length (row # rows)" for i
  proof (cases i)
    case 0
    then show ?thesis using loop row Z' by auto
  next
    case (Suc k)
    then show ?thesis using nth that Z' by simp
  qed
  then show ?case using len Z' by simp
qed

lemma repair_rows_returns:
  "\<forall>row\<in>set rows. \<forall>rs. \<exists>res. removal_loop D Q w (fst row) (snd row) rs = Inr res \<Longrightarrow>
     \<exists>res. repair_rows D Q w rows rs = Inr res"
proof (induction rows arbitrary: rs)
  case Nil
  then show ?case by simp
next
  case (Cons row rows)
  obtain z wt where row: "row = (z, wt)" by (cases row) auto
  from Cons.prems row obtain z1 wt1 rs1 where
    loop: "removal_loop D Q w z wt rs = Inr (z1, wt1, rs1)"
    by (metis fst_conv snd_conv list.set_intros(1) prod_cases3)
  from Cons.IH [of rs1] Cons.prems obtain res where "repair_rows D Q w rows rs1 = Inr res"
    by auto
  then show ?case using loop row by (cases res) simp
qed

lemma repair_rows_feasible:
  "\<forall>row\<in>set rows. \<not> gt D (snd row) Q \<Longrightarrow>
     repair_rows D Q w rows rs = Inr (map fst rows, rs)"
  by (induction rows arbitrary: rs) (auto simp: removal_loop_stop)

lemma repair_rows_raises:
  "repair_rows D Q w rows rs = Inl e \<Longrightarrow>
     \<exists>row\<in>set rows. \<exists>rs1. removal_loop D Q w (fst row) (snd row) rs1 = Inl e"
proof (induction rows arbitrary: rs)
  case Nil
  then show ?case by simp
next
  case (Cons row rows)
  obtain z wt where row: "row = (z, wt)" by (cases row) auto
  show ?case
  proof (cases "removal_loop D Q w z wt rs")
    case (Inl e')
    with Cons.prems row have "removal_loop D Q w (fst row) (snd row) rs = Inl e" by simp
    then show ?thesis by auto
  next
    case (Inr st)
    obtain z1 wt1 rs1 where "st = (z1, wt1, rs1)" by (cases st) auto
    with Inr Cons.prems row have "repair_rows D Q w rows rs1 = Inl e"
      by (auto split: sum.splits)
    from Cons.IH [OF this] show ?thesis by auto
  qed
qed

lemma do_rows:
  assumes "ConsiderMaximumWeightRepair_do p pop rs = Inr (pop', rs')"
  shows "length pop' = length pop \<and>
     (\<forall>i<length pop. \<exists>u rs1 wt' rs2.
        row_weight (dtype p) (X (pop ! i)) (W p) = Inr u \<and>
        removal_loop (dtype p) (C p) (W p) (X (pop ! i)) u rs1
          = Inr (X (pop' ! i), wt', rs2) \<and>
        pop' ! i = (pop ! i)\<lparr>X := X (pop' ! i)\<rparr>)"
proof -
  from assms obtain us Z' where
    us: "row_weights (dtype p) (map X pop) (W p) = Inr us"
    and rows: "repair_rows (dtype p) (C p) (W p) (zip (map X pop) us) rs = Inr (Z', rs')"
    and pop': "pop' = map2 (\<lambda>ind x. ind\<lparr>X := x\<rparr>) pop Z'"
    by (auto simp: ConsiderMaximumWeightRepair_do_def Let_def pop_get_X_def pop_set_X_def
        split: sum.splits)
  from row_weights_nth [OF us] have
    lus: "length us = length pop"
    and nus: "\<forall>i<length pop. row_weight (dtype p) (X (pop ! i)) (W p) = Inr (us ! i)"
    by simp_all
  from repair_rows_nth [OF rows] lus have
    lZ: "length Z' = length pop"
    and nZ: "\<forall>i<length pop. \<exists>rs1 wt' rs2.
        removal_loop (dtype p) (C p) (W p) (X (pop ! i)) (us ! i) rs1 = Inr (Z' ! i, wt', rs2)"
    by simp_all
  have len: "length pop' = length pop" using pop' lZ by simp
  have nth: "pop' ! i = (pop ! i)\<lparr>X := Z' ! i\<rparr>" if "i < length pop" for i
    using that lZ pop' by simp
  show ?thesis
  proof (intro conjI allI impI)
    show "length pop' = length pop" by (rule len)
  next
    fix i assume i: "i < length pop"
    from nZ i obtain rs1 wt' rs2 where
      "removal_loop (dtype p) (C p) (W p) (X (pop ! i)) (us ! i) rs1 = Inr (Z' ! i, wt', rs2)"
      by blast
    moreover have "X (pop' ! i) = Z' ! i" using nth [OF i] by simp
    ultimately show "\<exists>u rs1 wt' rs2.
        row_weight (dtype p) (X (pop ! i)) (W p) = Inr u \<and>
        removal_loop (dtype p) (C p) (W p) (X (pop ! i)) u rs1
          = Inr (X (pop' ! i), wt', rs2) \<and>
        pop' ! i = (pop ! i)\<lparr>X := X (pop' ! i)\<rparr>"
      using nus i nth [OF i] by auto
  qed
qed

lemma row_weights_within:
  "\<forall>z\<in>set Z. within_capacity D Q w z \<Longrightarrow>
     \<exists>us. row_weights D Z w = Inr us \<and> length us = length Z \<and> (\<forall>u\<in>set us. \<not> gt D u Q)"
proof (induction Z)
  case Nil
  then show ?case by simp
next
  case (Cons z Z)
  then obtain us where
    us: "row_weights D Z w = Inr us" "length us = length Z" "\<forall>u\<in>set us. \<not> gt D u Q"
    by auto
  from Cons.prems obtain u where "row_weight D z w = Inr u" "\<not> gt D u Q"
    by (auto simp: within_capacity_def split: sum.splits)
  with us show ?case by simp
qed

lemma pop_set_get: "pop_set_X pop (pop_get_X pop) = pop"
  by (induction pop) (simp_all add: pop_set_X_def pop_get_X_def)

lemma do_within_capacity:
  assumes "\<forall>ind\<in>set pop. within_capacity (dtype p) (C p) (W p) (X ind)"
  shows "ConsiderMaximumWeightRepair_do p pop rs = Inr (pop, rs)"
proof -
  let ?Z = "pop_get_X pop"
  have "\<forall>z\<in>set ?Z. within_capacity (dtype p) (C p) (W p) z"
    using assms by (simp add: pop_get_X_def)
  from row_weights_within [OF this] obtain us where
    us: "row_weights (dtype p) ?Z (W p) = Inr us" "length us = length ?Z"
      "\<forall>u\<in>set us. \<not> gt (dtype p) u (C p)"
    by blast
  have "\<forall>row\<in>set (zip ?Z us). \<not> gt (dtype p) (snd row) (C p)"
    using us(3) by (auto dest: set_zip_rightD)
  then have "repair_rows (dtype p) (C p) (W p) (zip ?Z us) rs = Inr (map fst (zip ?Z us), rs)"
    by (rule repair_rows_feasible)
  moreover have "map fst (zip ?Z us) = ?Z" using us(2) by simp
  ultimately show ?thesis
    using us(1) by (simp add: ConsiderMaximumWeightRepair_do_def Let_def pop_set_get)
qed

lemma do_unchanged:
  assumes run: "ConsiderMaximumWeightRepair_do p pop rs = Inr (pop', rs')"
    and i: "i < length pop" and ok: "within_capacity (dtype p) (C p) (W p) (X (pop ! i))"
  shows "pop' ! i = pop ! i"
proof -
  from do_rows [OF run] i obtain u rs1 wt' rs2 where
    u: "row_weight (dtype p) (X (pop ! i)) (W p) = Inr u" and
    loop: "removal_loop (dtype p) (C p) (W p) (X (pop ! i)) u rs1
             = Inr (X (pop' ! i), wt', rs2)" and
    upd: "pop' ! i = (pop ! i)\<lparr>X := X (pop' ! i)\<rparr>"
    by blast
  have "\<not> gt (dtype p) u (C p)" using ok u by (simp add: within_capacity_def)
  then have "X (pop' ! i) = X (pop ! i)" using loop by (simp add: removal_loop_stop)
  with upd show ?thesis by simp
qed

subsection \<open>Facts about the trace of the loop\<close>

lemma removal_trace_stop:
  "\<not> gt D wt Q \<Longrightarrow> removal_trace D Q w z wt rs = [(z, wt)]"
  by (simp add: removal_trace.simps)

lemma removal_trace_step:
  "gt D wt Q \<Longrightarrow> remove_item D w z wt rs = Inr (z1, wt1, rs1) \<Longrightarrow>
     removal_trace D Q w z wt rs = (z, wt) # removal_trace D Q w z1 wt1 rs1"
  by (subst removal_trace.simps) simp

lemma removal_trace_raise:
  "gt D wt Q \<Longrightarrow> remove_item D w z wt rs = Inl e \<Longrightarrow>
     removal_trace D Q w z wt rs = [(z, wt)]"
  by (subst removal_trace.simps) simp

lemma removal_trace_hd:
  "\<exists>tr. removal_trace D Q w z wt rs = (z, wt) # tr"
  by (subst removal_trace.simps) simp

lemma removal_trace_cases:
  obtains (stop) "\<not> gt D wt Q" "removal_trace D Q w z wt rs = [(z, wt)]"
      "removal_loop D Q w z wt rs = Inr (z, wt, rs)"
  | (raise) e where "gt D wt Q" "remove_item D w z wt rs = Inl e"
      "removal_trace D Q w z wt rs = [(z, wt)]" "removal_loop D Q w z wt rs = Inl e"
  | (step) z1 wt1 rs1 where "gt D wt Q" "remove_item D w z wt rs = Inr (z1, wt1, rs1)"
      "removal_trace D Q w z wt rs = (z, wt) # removal_trace D Q w z1 wt1 rs1"
      "removal_loop D Q w z wt rs = removal_loop D Q w z1 wt1 rs1"
proof (cases "gt D wt Q")
  case False
  then show ?thesis by (intro stop) (simp_all add: removal_trace_stop removal_loop_stop)
next
  case True
  show ?thesis
  proof (cases "remove_item D w z wt rs")
    case (Inl e)
    with True show ?thesis
      by (intro raise [of e]) (simp_all add: removal_trace_raise removal_loop_raise)
  next
    case (Inr st)
    obtain z1 wt1 rs1 where "st = (z1, wt1, rs1)" by (cases st) auto
    with Inr True show ?thesis
      by (intro step [of z1 wt1 rs1]) (simp_all add: removal_trace_step removal_loop_step)
  qed
qed

lemma removal_trace_length:
  "length (removal_trace D Q w z wt rs) \<le> Suc (length (np_where z))"
proof (induction D Q w z wt rs rule: removal_trace.induct)
  case (1 D Q w z wt rs)
  show ?case
  proof (cases rule: removal_trace_cases
        [where D = D and Q = Q and w = w and z = z and wt = wt and rs = rs])
    case stop
    then show ?thesis by simp
  next
    case (raise e)
    then show ?thesis by simp
  next
    case (step z1 wt1 rs1)
    from "1.IH" [OF step(1,2) refl refl] remove_item_fewer [OF step(2)] step(3)
    show ?thesis by simp
  qed
qed

lemma removal_trace_invariant:
  assumes "P z wt"
    and "\<And>z wt rs z1 wt1 rs1.
           P z wt \<Longrightarrow> gt D wt Q \<Longrightarrow> remove_item D w z wt rs = Inr (z1, wt1, rs1) \<Longrightarrow> P z1 wt1"
  shows "\<forall>st\<in>set (removal_trace D Q w z wt rs). P (fst st) (snd st)"
proof -
  have pres: "\<forall>z wt rs z1 wt1 rs1.
      P z wt \<longrightarrow> gt D wt Q \<longrightarrow> remove_item D w z wt rs = Inr (z1, wt1, rs1) \<longrightarrow> P z1 wt1"
    using assms(2) by blast
  from assms(1) pres show ?thesis
  proof (induction D Q w z wt rs rule: removal_trace.induct)
    case (1 D Q w z wt rs)
    show ?case
    proof (cases rule: removal_trace_cases
        [where D = D and Q = Q and w = w and z = z and wt = wt and rs = rs])
      case stop
      then show ?thesis using "1.prems"(1) by simp
    next
      case (raise e)
      then show ?thesis using "1.prems"(1) by simp
    next
      case (step z1 wt1 rs1)
      have "P z1 wt1" using "1.prems" step(1,2) by blast
      from "1.IH" [OF step(1,2) refl refl this "1.prems"(2)] step(3) "1.prems"(1)
      show ?thesis by simp
    qed
  qed
qed

lemma removal_trace_last:
  "removal_loop D Q w z wt rs = Inr (z', wt', rs') \<Longrightarrow>
     last (removal_trace D Q w z wt rs) = (z', wt')"
proof (induction D Q w z wt rs rule: removal_trace.induct)
  case (1 D Q w z wt rs)
  show ?case
  proof (cases rule: removal_trace_cases
        [where D = D and Q = Q and w = w and z = z and wt = wt and rs = rs])
    case stop
    then show ?thesis using "1.prems" by simp
  next
    case (raise e)
    then show ?thesis using "1.prems" by simp
  next
    case (step z1 wt1 rs1)
    obtain tr where "removal_trace D Q w z1 wt1 rs1 = (z1, wt1) # tr"
      using removal_trace_hd [of D Q w z1 wt1 rs1] by blast
    with "1.IH" [OF step(1,2) refl refl] "1.prems" step(3,4) show ?thesis by simp
  qed
qed

text \<open>
  How a trace ends: at a state that fails the loop's condition, or at a state whose
  pass raises.
\<close>

lemma removal_trace_end:
  "\<not> gt D (snd (last (removal_trace D Q w z wt rs))) Q \<or>
   (\<exists>rs1 e. remove_item D w (fst (last (removal_trace D Q w z wt rs)))
                (snd (last (removal_trace D Q w z wt rs))) rs1 = Inl e)"
proof (induction D Q w z wt rs rule: removal_trace.induct)
  case (1 D Q w z wt rs)
  show ?case
  proof (cases rule: removal_trace_cases
        [where D = D and Q = Q and w = w and z = z and wt = wt and rs = rs])
    case stop
    then show ?thesis by simp
  next
    case (raise e)
    then show ?thesis by auto
  next
    case (step z1 wt1 rs1)
    obtain tr where "removal_trace D Q w z1 wt1 rs1 = (z1, wt1) # tr"
      using removal_trace_hd [of D Q w z1 wt1 rs1] by blast
    with "1.IH" [OF step(1,2) refl refl] step(3) show ?thesis by simp
  qed
qed

lemma strict_descent:
  fixes xs :: "int list"
  shows "xs \<noteq> [] \<Longrightarrow> last xs < hd xs \<Longrightarrow> \<exists>k. Suc k < length xs \<and> xs ! Suc k < xs ! k"
proof (induction xs rule: induct_list012)
  case 1
  then show ?case by simp
next
  case (2 x)
  then show ?case by simp
next
  case (3 a b ys)
  show ?case
  proof (cases "b < a")
    case True
    then have "Suc 0 < length (a # b # ys) \<and> (a # b # ys) ! Suc 0 < (a # b # ys) ! 0" by simp
    then show ?thesis by blast
  next
    case False
    with "3.prems" have "last (b # ys) < hd (b # ys)" by simp
    with "3.IH"(2) obtain k where "Suc k < length (b # ys)" "(b # ys) ! Suc k < (b # ys) ! k"
      by blast
    then have "Suc (Suc k) < length (a # b # ys) \<and>
               (a # b # ys) ! Suc (Suc k) < (a # b # ys) ! Suc k" by simp
    then show ?thesis by blast
  qed
qed

subsection \<open>Facts about the dot product\<close>

lemma dot_Nil [simp]: "dot [] w = 0" "dot z [] = 0"
  by (simp_all add: dot_def)

lemma dot_Cons [simp]: "dot (b # z) (x # w) = of_bool b * x + dot z w"
  by (simp add: dot_def)

lemma dot_update:
  "i < length z \<Longrightarrow> i < length w \<Longrightarrow> z ! i \<Longrightarrow>
     dot (z[i := False]) w = dot z w - w ! i"
proof (induction z arbitrary: i w)
  case Nil
  then show ?case by simp
next
  case (Cons b z)
  then obtain x w' where w: "w = x # w'" by (cases w) auto
  show ?case
  proof (cases i)
    case 0
    with Cons.prems w show ?thesis by simp
  next
    case (Suc k)
    with Cons.prems w Cons.IH [of k w'] show ?thesis by simp
  qed
qed

lemma np_where_Nil_dot: "np_where z = [] \<Longrightarrow> dot z w = 0"
proof (induction z arbitrary: w)
  case Nil
  then show ?case by simp
next
  case (Cons b z)
  have all: "\<forall>i<length (b # z). \<not> (b # z) ! i"
    using Cons.prems np_where_mem [of _ "b # z"] by auto
  then have "\<not> b" by auto
  moreover have "np_where z = []"
  proof -
    have "\<forall>i<length z. \<not> z ! i" using all by auto
    then show ?thesis by (auto simp: np_where_def filter_empty_conv)
  qed
  ultimately show ?case using Cons.IH by (cases w) auto
qed

lemma dot_none_picked: "dot (replicate n False) w = 0"
  by (rule np_where_Nil_dot) (simp add: np_where_def filter_empty_conv)

lemma dot_nonneg:
  fixes w :: "int list"
  shows "\<forall>x\<in>set w. 0 \<le> x \<Longrightarrow> 0 \<le> dot z w"
proof (induction z arbitrary: w)
  case Nil
  then show ?case by simp
next
  case (Cons b z)
  then show ?case by (cases w) auto
qed

lemma dot_abs_le:
  fixes w :: "int list"
  shows "\<bar>dot z w\<bar> \<le> (\<Sum>x\<leftarrow>w. \<bar>x\<bar>)"
proof (induction z arbitrary: w)
  case Nil
  then show ?case by (auto intro!: sum_list_nonneg)
next
  case (Cons b z)
  show ?case
  proof (cases w)
    case Nil
    then show ?thesis by simp
  next
    case (Cons x w')
    have "\<bar>of_bool b * x + dot z w'\<bar> \<le> \<bar>of_bool b * x\<bar> + \<bar>dot z w'\<bar>" by (rule abs_triangle_ineq)
    also have "\<dots> \<le> \<bar>x\<bar> + (\<Sum>x\<leftarrow>w'. \<bar>x\<bar>)"
      using Cons.IH [of w'] by (cases b) auto
    finally show ?thesis using Cons by simp
  qed
qed

lemma dot_mono:
  fixes b :: "int list"
  assumes "length z' = length z" and "\<forall>j<length z. z' ! j \<longrightarrow> z ! j"
    and "\<forall>v\<in>set b. 0 \<le> v"
  shows "dot z' b \<le> dot z b"
  using assms
proof (induction z' z arbitrary: b rule: list_induct2)
  case Nil
  then show ?case by simp
next
  case (Cons x' z' x z)
  show ?case
  proof (cases b)
    case Nil
    then show ?thesis by simp
  next
    case (Cons v b')
    have head: "x' \<longrightarrow> x" using Cons.prems(1) by auto
    have tail: "\<forall>j<length z. z' ! j \<longrightarrow> z ! j" using Cons.prems(1) by auto
    have "dot z' b' \<le> dot z b'" using Cons.IH [OF tail] Cons.prems(2) \<open>b = v # b'\<close> by simp
    moreover have "of_bool x' * v \<le> of_bool x * v"
      using head Cons.prems(2) \<open>b = v # b'\<close> by (cases x'; cases x) auto
    ultimately show ?thesis using \<open>b = v # b'\<close> by simp
  qed
qed

lemma np_where_subset:
  assumes "length z' = length z" and "\<forall>j<length z. z' ! j \<longrightarrow> z ! j"
  shows "set (np_where z') \<subseteq> set (np_where z)"
  using assms by (auto simp: np_where_mem)

subsection \<open>Facts about int64 arithmetic\<close>

lemma int64_simps [simp]:
  "mul_bool int64 = (\<lambda>b x. of_bool b * x)"
  "sum_row int64 = sum_list"
  "sub int64 = (\<lambda>x y. x - y)"
  "gt int64 x y \<longleftrightarrow> sint y < sint x"
  by (simp_all add: int64_def word_sless_alt)

lemma row_weight_int64_dot:
  "length z = length w \<Longrightarrow> row_weight int64 z w = Inr (dot z w)"
  by (simp add: row_weight_def mul_broadcast_def dot_def)

lemma word_dot_of_int: "(dot z w :: 64 word) = word_of_int (usage z w)"
  unfolding usage_def
proof (induction z arbitrary: w)
  case Nil
  then show ?case by simp
next
  case (Cons b z)
  then show ?case by (cases w) simp_all
qed

lemma sint_of_int_int64:
  "- (2 ^ 63) \<le> k \<Longrightarrow> k < 2 ^ 63 \<Longrightarrow> sint (word_of_int k :: 64 word) = k"
  by (simp add: signed_of_int signed_take_bit_int_eq_self)

lemma sint_dot_range:
  "- (2 ^ 63) \<le> usage z w \<Longrightarrow> usage z w < 2 ^ 63 \<Longrightarrow> sint (dot z w :: 64 word) = usage z w"
  by (simp add: word_dot_of_int sint_of_int_int64)

lemma usage_abs_le: "\<bar>usage z w\<bar> \<le> (\<Sum>x\<leftarrow>w. \<bar>sint x\<bar>)"
  using dot_abs_le [of z "map sint w"] by (simp add: usage_def comp_def)

lemma sint_dot_fits:
  assumes "fits_int64 w"
  shows "sint (dot z w :: 64 word) = usage z w"
proof -
  have "\<bar>usage z w\<bar> < 2 ^ 63" using usage_abs_le [of z w] assms by (simp add: fits_int64_def)
  then show ?thesis by (intro sint_dot_range) auto
qed

lemma usage_nonneg: "\<forall>x\<in>set w. 0 \<le> sint x \<Longrightarrow> 0 \<le> usage z w"
  unfolding usage_def by (rule dot_nonneg) simp

lemma usage_update:
  "i < length z \<Longrightarrow> i < length w \<Longrightarrow> z ! i \<Longrightarrow>
     usage (z[i := False]) w = usage z w - sint (w ! i)"
  by (simp add: usage_def dot_update)

lemma sint_sub_no_wrap:
  fixes a b :: "64 word"
  assumes "- (2 ^ 63) \<le> sint a - sint b" and "sint a - sint b < 2 ^ 63"
  shows "sint (a - b) = sint a - sint b"
proof -
  have "a - b = word_of_int (sint a - sint b)" by simp
  then show ?thesis using assms by (simp only: sint_of_int_int64)
qed

subsection \<open>The loop in int64, on a row of the length of the weight vector\<close>

text \<open>
  For a row of the length of the weight vector the tracked weight is, as a word, the
  dot product of the current row and the weights at every state: the bookkeeping is
  exact modulo \<open>2\<^sup>6\<^sup>4\<close>.
\<close>

lemma remove_item_int64_exact:
  assumes "length z = length w" and "wt = dot z w"
    and "remove_item int64 w z wt rs = Inr (z1, wt1, rs1)"
  shows "length z1 = length w \<and> wt1 = dot z1 w"
proof -
  from remove_item_selected [OF assms(3)] obtain i where
    "i \<in> set (np_where z)" "i < length w" "z1 = z[i := False]" "wt1 = sub int64 wt (w ! i)"
    by blast
  then show ?thesis using assms(1,2) by (simp add: np_where_mem dot_update)
qed

lemma remove_item_int64_raises:
  assumes "length z = length w" and "remove_item int64 w z wt rs = Inl e"
  shows "e = ValueError \<and> np_where z = []"
proof (cases "np_where z = []")
  case True
  then show ?thesis using assms(2) by (simp add: remove_item_def random_choice_def)
next
  case False
  define i where "i = np_where z ! (rs 0 mod length (np_where z))"
  have "i \<in> set (np_where z)" unfolding i_def using False by simp
  then have "i < length w" using assms(1) by (simp add: np_where_mem)
  then show ?thesis
    using False assms(2) by (simp add: remove_item_def random_choice_def i_def)
qed

lemma remove_item_returns:
  assumes "length z = length w" and "np_where z \<noteq> []"
  shows "\<exists>st. remove_item D w z wt rs = Inr st"
proof -
  define i where "i = np_where z ! (rs 0 mod length (np_where z))"
  have "i \<in> set (np_where z)" unfolding i_def using assms(2) by simp
  then have "i < length w" using assms(1) by (simp add: np_where_mem)
  then show ?thesis
    using assms(2) by (simp add: remove_item_def random_choice_def i_def)
qed

lemma removal_loop_int64_exact:
  assumes "length z = length w"
    and "removal_loop int64 Q w z (dot z w) rs = Inr (z', wt', rs')"
  shows "length z' = length w \<and> wt' = dot z' w \<and> sint wt' \<le> sint Q"
proof -
  let ?P = "\<lambda>z wt. length z = length w \<and> wt = dot z w"
  have "?P z' wt' \<and> \<not> gt int64 wt' Q"
  proof (rule removal_loop_invariant [where P = ?P, OF assms(2)])
    show "?P z (dot z w)" using assms(1) by simp
  next
    fix z wt rs z1 wt1 rs1
    assume "?P z wt" and "gt int64 wt Q"
      and "remove_item int64 w z wt rs = Inr (z1, wt1, rs1)"
    then show "?P z1 wt1" using remove_item_int64_exact by blast
  qed
  then show ?thesis by (auto simp: not_less)
qed

lemma removal_trace_int64_exact:
  assumes "length z = length w"
  shows "\<forall>st\<in>set (removal_trace int64 Q w z (dot z w) rs).
           length (fst st) = length w \<and> snd st = dot (fst st) w"
proof (rule removal_trace_invariant
    [where P = "\<lambda>z wt. length z = length w \<and> wt = dot z w"])
  show "length z = length w \<and> dot z w = dot z w" using assms by simp
next
  fix z wt rs z1 wt1 rs1
  assume "length z = length w \<and> wt = dot z w" and "gt int64 wt Q"
    and "remove_item int64 w z wt rs = Inr (z1, wt1, rs1)"
  then show "length z1 = length w \<and> wt1 = dot z1 w" using remove_item_int64_exact by blast
qed

lemma removal_loop_int64_returns:
  assumes "0 \<le> sint Q" and "length z = length w" and "wt = dot z w"
  shows "\<exists>res. removal_loop int64 Q w z wt rs = Inr res"
  using assms
proof (induction int64 Q w z wt rs rule: removal_loop.induct)
  case (1 Q w z wt rs)
  show ?case
  proof (cases "gt int64 wt Q")
    case True
    then have "wt \<noteq> 0" using "1.prems"(1) by auto
    then have ne: "np_where z \<noteq> []" using "1.prems"(3) np_where_Nil_dot by blast
    from remove_item_returns [OF "1.prems"(2) ne] obtain z1 wt1 rs1 where
      step: "remove_item int64 w z wt rs = Inr (z1, wt1, rs1)" by (metis prod_cases3)
    from remove_item_int64_exact [OF "1.prems"(2,3) step]
    have "\<exists>res. removal_loop int64 Q w z1 wt1 rs1 = Inr res"
      using "1.hyps" [OF True step refl refl "1.prems"(1)] by simp
    then show ?thesis by (simp add: removal_loop_step [OF True step])
  next
    case False
    then show ?thesis by (simp add: removal_loop_stop)
  qed
qed

lemma removal_loop_int64_raises_only:
  assumes "length z = length w" and "wt = dot z w"
    and "removal_loop int64 Q w z wt rs = Inl e"
  shows "e = ValueError \<and> sint Q < 0"
  using assms
proof (induction int64 Q w z wt rs rule: removal_loop.induct)
  case (1 Q w z wt rs)
  show ?case
  proof (cases "gt int64 wt Q")
    case False
    with "1.prems"(3) show ?thesis by (simp add: removal_loop_stop)
  next
    case True
    show ?thesis
    proof (cases "remove_item int64 w z wt rs")
      case (Inl e')
      from remove_item_int64_raises [OF "1.prems"(1) Inl] have
        e': "e' = ValueError" and "np_where z = []" by simp_all
      then have "wt = 0" using "1.prems"(2) by (simp add: np_where_Nil_dot)
      then have "sint Q < 0" using True by simp
      moreover have "e = e'" using "1.prems"(3) removal_loop_raise [OF True Inl] by simp
      ultimately show ?thesis using e' by simp
    next
      case (Inr st)
      obtain z1 wt1 rs1 where st: "st = (z1, wt1, rs1)" by (cases st) auto
      have step: "remove_item int64 w z wt rs = Inr (z1, wt1, rs1)" using Inr st by simp
      have rec: "removal_loop int64 Q w z1 wt1 rs1 = Inl e"
        using "1.prems"(3) removal_loop_step [OF True step] by simp
      from remove_item_int64_exact [OF "1.prems"(1,2) step]
      show ?thesis using "1.hyps" [OF True step refl refl _ _ rec] by simp
    qed
  qed
qed

lemma removal_loop_int64_fails:
  assumes "\<forall>x\<in>set w. 0 \<le> sint x" and "fits_int64 w" and "sint Q < 0"
    and "length z = length w" and "wt = dot z w"
  shows "removal_loop int64 Q w z wt rs = Inl ValueError"
  using assms
proof (induction int64 Q w z wt rs rule: removal_loop.induct)
  case (1 Q w z wt rs)
  have "sint wt = usage z w" using "1.prems"(2,5) by (simp add: sint_dot_fits)
  then have above: "gt int64 wt Q"
    using usage_nonneg [OF "1.prems"(1), of z] "1.prems"(3) by simp
  show ?case
  proof (cases "remove_item int64 w z wt rs")
    case (Inl e)
    from remove_item_int64_raises [OF "1.prems"(4) Inl] have "e = ValueError" by simp
    then show ?thesis using removal_loop_raise [OF above Inl] by simp
  next
    case (Inr st)
    obtain z1 wt1 rs1 where st: "st = (z1, wt1, rs1)" by (cases st) auto
    have step: "remove_item int64 w z wt rs = Inr (z1, wt1, rs1)" using Inr st by simp
    from remove_item_int64_exact [OF "1.prems"(4,5) step]
    have "removal_loop int64 Q w z1 wt1 rs1 = Inl ValueError"
      using "1.hyps" [OF above step refl refl "1.prems"(1,2,3)] by simp
    then show ?thesis by (simp add: removal_loop_step [OF above step])
  qed
qed

subsection \<open>The loop in int64, on any row\<close>

lemma sum_list_mult_zero: "sum_list (map ((*) (0::64 word)) w) = 0"
  by (induction w) auto

lemma remove_item_int64_fresh:
  assumes step: "remove_item int64 w z wt rs = Inr (z', wt', rs')"
    and fresh: "row_weight int64 z w = Inr wt"
  shows "row_weight int64 z' w = Inr wt' \<or>
         (row_weight int64 z' w = Inr 0 \<and> np_where z' = [])"
proof -
  from remove_item_selected [OF step] obtain i where
    i: "i \<in> set (np_where z)" "i < length w" and z': "z' = z[i := False]"
    and wt': "wt' = sub int64 wt (w ! i)" by blast
  from i(1) have iz: "i < length z" "z ! i" by (simp_all add: np_where_mem)
  consider (eq) "length z = length w"
    | (one_w) "length z \<noteq> length w" "length w = 1"
    | (one_z) "length z \<noteq> length w" "length w \<noteq> 1" "length z = 1"
    | (bad) "length z \<noteq> length w" "length w \<noteq> 1" "length z \<noteq> 1"
    by blast
  then show ?thesis
  proof cases
    case eq
    then have "wt = dot z w" using fresh by (simp add: row_weight_int64_dot)
    from remove_item_int64_exact [OF eq this step]
    show ?thesis by (simp add: row_weight_int64_dot)
  next
    case one_w
    then have i0: "i = 0" using i(2) by simp
    obtain x where w: "w = [x]" using one_w(2) by (cases w) auto
    obtain zs where z: "z = True # zs" using iz i0 by (cases z) auto
    have "wt = x + sum_list (map (\<lambda>b. of_bool b * x) zs)"
      using fresh one_w by (simp add: row_weight_def mul_broadcast_def w z)
    moreover have "row_weight int64 z' w = Inr (sum_list (map (\<lambda>b. of_bool b * x) zs))"
      using one_w by (simp add: row_weight_def mul_broadcast_def w z z' i0)
    ultimately show ?thesis using wt' by (simp add: w i0)
  next
    case one_z
    then have i0: "i = 0" using iz(1) by simp
    have z: "z = [True]" using one_z(3) iz i0 by (cases z) auto
    have "row_weight int64 z' w = Inr 0"
      using one_z by (simp add: row_weight_def mul_broadcast_def z z' i0 sum_list_mult_zero)
    moreover have "np_where z' = []" by (simp add: z z' i0 np_where_def)
    ultimately show ?thesis by simp
  next
    case bad
    then show ?thesis using fresh by (simp add: row_weight_def mul_broadcast_def)
  qed
qed

lemma remove_item_needs_picked:
  "remove_item D w z wt rs = Inr st \<Longrightarrow> np_where z \<noteq> []"
  by (auto simp: remove_item_def random_choice_def split: if_splits)

lemma removal_loop_int64_within:
  assumes cap: "0 \<le> sint Q" and fresh: "row_weight int64 z w = Inr u"
    and loop: "removal_loop int64 Q w z u rs = Inr (z', wt', rs')"
  shows "within_capacity int64 Q w z'"
proof -
  let ?P = "\<lambda>y t. row_weight int64 y w = Inr t \<or>
                  (row_weight int64 y w = Inr 0 \<and> np_where y = [])"
  have "?P z' wt' \<and> \<not> gt int64 wt' Q"
  proof (rule removal_loop_invariant [where P = ?P, OF loop])
    show "?P z u" using fresh by simp
  next
    fix y t rs y1 t1 rs1
    assume P: "?P y t" and "gt int64 t Q"
      and step: "remove_item int64 w y t rs = Inr (y1, t1, rs1)"
    have "np_where y \<noteq> []" using step by (rule remove_item_needs_picked)
    with P have "row_weight int64 y w = Inr t" by blast
    with step show "?P y1 t1" by (rule remove_item_int64_fresh)
  qed
  then show ?thesis using cap by (auto simp: within_capacity_def)
qed

lemma removal_trace_successively:
  assumes "P z wt"
    and "\<And>z wt rs z1 wt1 rs1.
           P z wt \<Longrightarrow> gt D wt Q \<Longrightarrow> remove_item D w z wt rs = Inr (z1, wt1, rs1) \<Longrightarrow>
           P z1 wt1 \<and> R wt wt1"
  shows "successively R (map snd (removal_trace D Q w z wt rs))"
proof -
  have pres: "\<forall>z wt rs z1 wt1 rs1.
      P z wt \<longrightarrow> gt D wt Q \<longrightarrow> remove_item D w z wt rs = Inr (z1, wt1, rs1) \<longrightarrow>
      P z1 wt1 \<and> R wt wt1"
    using assms(2) by blast
  from assms(1) pres show ?thesis
  proof (induction D Q w z wt rs rule: removal_trace.induct)
    case (1 D Q w z wt rs)
    show ?case
    proof (cases rule: removal_trace_cases
        [where D = D and Q = Q and w = w and z = z and wt = wt and rs = rs])
      case stop
      then show ?thesis by simp
    next
      case (raise e)
      then show ?thesis by simp
    next
      case (step z1 wt1 rs1)
      have P1: "P z1 wt1" and R: "R wt wt1" using "1.prems" step(1,2) by blast+
      obtain tr where tr: "removal_trace D Q w z1 wt1 rs1 = (z1, wt1) # tr"
        using removal_trace_hd [of D Q w z1 wt1 rs1] by blast
      from "1.IH" [OF step(1,2) refl refl P1 "1.prems"(2)] R step(3) tr
      show ?thesis by simp
    qed
  qed
qed

lemma removal_trace_int64_nonincreasing:
  assumes nonneg: "\<forall>x\<in>set w. 0 \<le> sint x" and fits: "fits_int64 w"
    and start: "0 \<le> sint wt"
  shows "successively (\<lambda>a b. sint b \<le> sint a) (map snd (removal_trace int64 Q w z wt rs))"
proof -
  define c where "c = sint wt - usage z w"
  have "usage z w < 2 ^ 63" using usage_abs_le [of z w] fits by (simp add: fits_int64_def)
  then have c: "- (2 ^ 63) < c" using start by (simp add: c_def)
  let ?P = "\<lambda>y t. sint t - usage y w = c"
  show ?thesis
  proof (rule removal_trace_successively [where P = ?P])
    show "?P z wt" by (simp add: c_def)
  next
    fix y t rs y1 t1 rs1
    assume P: "?P y t" and "gt int64 t Q"
      and step: "remove_item int64 w y t rs = Inr (y1, t1, rs1)"
    from remove_item_selected [OF step] obtain i where
      i: "i \<in> set (np_where y)" "i < length w" and y1: "y1 = y[i := False]"
      and t1: "t1 = t - w ! i" by auto
    from i(1) have iy: "i < length y" "y ! i" by (simp_all add: np_where_mem)
    have wi: "0 \<le> sint (w ! i)" using nonneg i(2) by simp
    have u1: "usage y1 w = usage y w - sint (w ! i)"
      unfolding y1 using iy i(2) by (simp add: usage_update)
    have "0 \<le> usage y1 w" using nonneg by (rule usage_nonneg)
    then have lo: "- (2 ^ 63) \<le> sint t - sint (w ! i)" using P u1 c by simp
    have hi: "sint t - sint (w ! i) < 2 ^ 63" using sint_lt [of t] wi by simp
    have "sint t1 = sint t - sint (w ! i)" unfolding t1 using lo hi by (rule sint_sub_no_wrap)
    then show "?P y1 t1 \<and> sint t1 \<le> sint t" using P u1 wi by simp
  qed
qed

text \<open>A run of the operator on int64 weights, used below at concrete inputs.\<close>

lemma example_run:
  "ConsiderMaximumWeightRepair_do \<lparr>dtype = int64, C = 5, W = [3, 4, 2]\<rparr>
       [\<lparr>X = [True, True, True], F = Some 9, CV = Some 4\<rparr>,
        \<lparr>X = [True, False, False], F = None, CV = None\<rparr>] (\<lambda>n. n)
   = Inr ([\<lparr>X = [False, True, False], F = Some 9, CV = Some 4\<rparr>,
           \<lparr>X = [True, False, False], F = None, CV = None\<rparr>], \<lambda>n. Suc (Suc n))"
  by (simp add: ConsiderMaximumWeightRepair_do_def pop_get_X_def pop_set_X_def
      row_weight_def mul_broadcast_def removal_loop.simps remove_item_def
      random_choice_def np_where_def upt_rec)

lemma example_trace:
  "removal_trace int64 5 [3, 4, 2] [True, True, True] 9 (\<lambda>n. n) =
     [([True, True, True], 9), ([False, True, True], 6), ([False, True, False], 4)]"
  by (simp add: removal_trace.simps remove_item_def random_choice_def np_where_def upt_rec)

subsection \<open>Frame and direction of the change\<close>

text \<open>
  C7. A population that the repair returns has the size of the one it was given, and
  each of its slots holds the individual of the same slot with at most the field \<open>X\<close>
  replaced: \<open>F\<close>, \<open>CV\<close> and every other attribute are as they were. This holds in
  every arithmetic.
\<close>

theorem repair_frame:
  assumes "ConsiderMaximumWeightRepair_do p pop rs = Inr (pop', rs')"
  shows "length pop' = length pop \<and>
         (\<forall>i<length pop.
            pop' ! i = (pop ! i)\<lparr>X := X (pop' ! i)\<rparr> \<and>
            F (pop' ! i) = F (pop ! i) \<and>
            CV (pop' ! i) = CV (pop ! i) \<and>
            individual.more (pop' ! i) = individual.more (pop ! i))"
proof (intro conjI allI impI)
  show "length pop' = length pop" using do_rows [OF assms] by simp
next
  fix i assume i: "i < length pop"
  with do_rows [OF assms] have upd: "pop' ! i = (pop ! i)\<lparr>X := X (pop' ! i)\<rparr>" by blast
  show "pop' ! i = (pop ! i)\<lparr>X := X (pop' ! i)\<rparr>" by (rule upd)
  show "F (pop' ! i) = F (pop ! i)" by (subst upd) simp
  show "CV (pop' ! i) = CV (pop ! i)" by (subst upd) simp
  show "individual.more (pop' ! i) = individual.more (pop ! i)" by (subst upd) simp
qed

theorem repair_frame_witness:
  "\<exists>pop' rs'.
     ConsiderMaximumWeightRepair_do \<lparr>dtype = int64, C = 5, W = [3, 4, 2]\<rparr>
       [\<lparr>X = [True, True, True], F = Some 9, CV = Some 4\<rparr>,
        \<lparr>X = [True, False, False], F = None, CV = None\<rparr>] (\<lambda>n. n) = Inr (pop', rs') \<and>
     length pop' = 2 \<and> F (pop' ! 0) = Some 9 \<and> CV (pop' ! 0) = Some 4 \<and>
     F (pop' ! 1) = None \<and> CV (pop' ! 1) = None"
proof -
  from repair_frame [OF example_run] have
    "length [\<lparr>X = [False, True, False], F = Some 9, CV = Some 4\<rparr>,
             \<lparr>X = [True, False, False], F = None, CV = None\<rparr>] = (2::nat)" by simp
  with example_run show ?thesis by simp
qed

text \<open>
  C9. In a population that the repair returns, the items picked by an individual are
  among those it picked before: the repair only clears entries of \<open>X\<close>. Hence, for
  non-negative item values, the profit of no individual goes up. This holds in every
  arithmetic.
\<close>

theorem repair_only_deselects:
  assumes "ConsiderMaximumWeightRepair_do p pop rs = Inr (pop', rs')"
  shows "\<forall>i<length pop.
           length (X (pop' ! i)) = length (X (pop ! i)) \<and>
           set (np_where (X (pop' ! i))) \<subseteq> set (np_where (X (pop ! i))) \<and>
           (\<forall>b. (\<forall>v\<in>set b. 0 \<le> v) \<longrightarrow> profit (X (pop' ! i)) b \<le> profit (X (pop ! i)) b)"
proof (intro allI impI)
  fix i assume "i < length pop"
  with do_rows [OF assms] obtain u rs1 wt' rs2 where
    "removal_loop (dtype p) (C p) (W p) (X (pop ! i)) u rs1 = Inr (X (pop' ! i), wt', rs2)"
    by blast
  from removal_loop_subset [OF this] have
    len: "length (X (pop' ! i)) = length (X (pop ! i))" and
    sub: "\<forall>j<length (X (pop ! i)). X (pop' ! i) ! j \<longrightarrow> X (pop ! i) ! j" by simp_all
  show "length (X (pop' ! i)) = length (X (pop ! i)) \<and>
           set (np_where (X (pop' ! i))) \<subseteq> set (np_where (X (pop ! i))) \<and>
           (\<forall>b. (\<forall>v\<in>set b. 0 \<le> v) \<longrightarrow> profit (X (pop' ! i)) b \<le> profit (X (pop ! i)) b)"
    using len np_where_subset [OF len sub] dot_mono [OF len sub]
    by (simp add: profit_def)
qed

theorem repair_only_deselects_witness:
  "\<exists>pop' rs'.
     ConsiderMaximumWeightRepair_do \<lparr>dtype = int64, C = 5, W = [3, 4, 2]\<rparr>
       [\<lparr>X = [True, True, True], F = Some 9, CV = Some 4\<rparr>,
        \<lparr>X = [True, False, False], F = None, CV = None\<rparr>] (\<lambda>n. n) = Inr (pop', rs') \<and>
     set (np_where (X (pop' ! 0))) \<subseteq> set (np_where [True, True, True]) \<and>
     profit (X (pop' ! 0)) [10, 20, 30] \<le> profit [True, True, True] [10, 20, 30]"
proof -
  from repair_only_deselects [OF example_run, rule_format, of 0] have
    "set (np_where [False, True, False]) \<subseteq> set (np_where [True, True, True]) \<and>
     (\<forall>b. (\<forall>v\<in>set b. 0 \<le> v) \<longrightarrow> profit [False, True, False] b \<le> profit [True, True, True] b)"
    by simp
  then have "set (np_where [False, True, False]) \<subseteq> set (np_where [True, True, True])"
    and "profit [False, True, False] [10, 20, 30] \<le> profit [True, True, True] [10, 20, 30]"
    by simp_all
  with example_run show ?thesis by simp
qed

subsection \<open>The operator on int64 weights\<close>

lemma row_weights_int64_lens:
  "\<forall>z\<in>set Z. length z = length w \<Longrightarrow>
     row_weights int64 Z w = Inr (map (\<lambda>z. dot z w) Z)"
  by (induction Z) (simp_all add: row_weight_int64_dot)

lemma do_int64_unfold:
  assumes "dtype p = int64" and "\<forall>ind\<in>set pop. length (X ind) = length (W p)"
  shows "ConsiderMaximumWeightRepair_do p pop rs =
     (case repair_rows int64 (C p) (W p) (map (\<lambda>z. (z, dot z (W p))) (map X pop)) rs of
        Inl e \<Rightarrow> Inl e
      | Inr (Z', rs') \<Rightarrow> Inr (pop_set_X pop Z', rs'))"
proof -
  have ws: "row_weights int64 (map X pop) (W p) = Inr (map (\<lambda>z. dot z (W p)) (map X pop))"
    using assms(2) by (intro row_weights_int64_lens) simp
  have zip: "zip (map X pop) (map (\<lambda>z. dot z (W p)) (map X pop)) =
        map (\<lambda>z. (z, dot z (W p))) (map X pop)"
    by (rule zip_map_same)
  show ?thesis
    by (simp only: ConsiderMaximumWeightRepair_do_def Let_def pop_get_X_def assms(1) ws
        sum.case zip)
qed

lemma do_int64_returns:
  assumes dt: "dtype p = int64" and cap: "0 \<le> sint (C p)"
    and lens: "\<forall>ind\<in>set pop. length (X ind) = length (W p)"
  shows "\<exists>pop' rs'. ConsiderMaximumWeightRepair_do p pop rs = Inr (pop', rs')"
proof -
  let ?rows = "map (\<lambda>z. (z, dot z (W p))) (map X pop)"
  have "\<exists>res. repair_rows int64 (C p) (W p) ?rows rs = Inr res"
  proof (rule repair_rows_returns, intro ballI allI)
    fix row rs1
    assume "row \<in> set ?rows"
    then have "length (fst row) = length (W p)" "snd row = dot (fst row) (W p)"
      using lens by auto
    then show "\<exists>res. removal_loop int64 (C p) (W p) (fst row) (snd row) rs1 = Inr res"
      using removal_loop_int64_returns [OF cap] by blast
  qed
  then obtain Z' rs' where "repair_rows int64 (C p) (W p) ?rows rs = Inr (Z', rs')" by auto
  then show ?thesis unfolding do_int64_unfold [OF dt lens] by simp
qed

lemma do_int64_output_within:
  assumes dt: "dtype p = int64" and cap: "0 \<le> sint (C p)"
    and run: "ConsiderMaximumWeightRepair_do p pop rs = Inr (pop', rs')"
  shows "\<forall>ind\<in>set pop'. within_capacity int64 (C p) (W p) (X ind)"
proof
  fix ind assume "ind \<in> set pop'"
  then obtain i where i: "i < length pop'" and ind: "ind = pop' ! i"
    by (auto simp: in_set_conv_nth)
  from do_rows [OF run] i obtain u rs1 wt' rs2 where
    u: "row_weight int64 (X (pop ! i)) (W p) = Inr u" and
    loop: "removal_loop int64 (C p) (W p) (X (pop ! i)) u rs1 = Inr (X (pop' ! i), wt', rs2)"
    unfolding dt by auto
  from removal_loop_int64_within [OF cap u loop]
  show "within_capacity int64 (C p) (W p) (X ind)" by (simp add: ind)
qed

lemma within_capacity_int64_usage:
  assumes "length z = length w" and "fits_int64 w"
  shows "within_capacity int64 Q w z \<longleftrightarrow> usage z w \<le> sint Q"
  using assms by (auto simp: within_capacity_def row_weight_int64_dot sint_dot_fits)

lemma within_capacity_int64_usage_nonneg:
  assumes "length z = length w" and "\<forall>x\<in>set w. 0 \<le> sint x" and "usage z w \<le> sint Q"
  shows "within_capacity int64 Q w z"
proof -
  have "usage z w < 2 ^ 63" using assms(3) sint_lt [of Q] by simp
  moreover have "0 \<le> usage z w" using assms(2) by (rule usage_nonneg)
  ultimately have "sint (dot z w :: 64 word) = usage z w" by (intro sint_dot_range) auto
  then show ?thesis using assms(1,3) by (simp add: within_capacity_def row_weight_int64_dot)
qed

subsection \<open>Feasibility of the output\<close>

text \<open>
  C1, for int64 weights that fit. With a non-negative capacity, every individual that
  the repair returns is within capacity as the operator computes it, and when its
  decision vector has the length of the weight vector its usage \<open>dot(X, W)\<close> is at most
  \<open>Q\<close>. When all decision vectors have that length the repair does return, and the
  constraint violation computed from the new \<open>X\<close> is zero, hence not above its value
  before.
\<close>

theorem repair_feasible:
  assumes "dtype p = int64" and "0 \<le> sint (C p)" and "fits_int64 (W p)"
  shows "(\<forall>pop' rs'. ConsiderMaximumWeightRepair_do p pop rs = Inr (pop', rs') \<longrightarrow>
            (\<forall>ind\<in>set pop'.
               within_capacity int64 (C p) (W p) (X ind) \<and>
               (length (X ind) = length (W p) \<longrightarrow> usage (X ind) (W p) \<le> sint (C p)))) \<and>
         ((\<forall>ind\<in>set pop. length (X ind) = length (W p)) \<longrightarrow>
            (\<exists>pop' rs'. ConsiderMaximumWeightRepair_do p pop rs = Inr (pop', rs') \<and>
               length pop' = length pop \<and>
               (\<forall>i<length pop.
                  usage (X (pop' ! i)) (W p) \<le> sint (C p) \<and>
                  constraint_violation p (X (pop' ! i)) = 0 \<and>
                  constraint_violation p (X (pop' ! i))
                    \<le> constraint_violation p (X (pop ! i)))))"
proof (intro conjI allI impI ballI)
  fix pop' rs' ind
  assume run: "ConsiderMaximumWeightRepair_do p pop rs = Inr (pop', rs')"
    and ind: "ind \<in> set pop'"
  show ok: "within_capacity int64 (C p) (W p) (X ind)"
    using do_int64_output_within [OF assms(1,2) run] ind by blast
  assume "length (X ind) = length (W p)"
  then show "usage (X ind) (W p) \<le> sint (C p)"
    using ok within_capacity_int64_usage [OF _ assms(3)] by blast
next
  assume lens: "\<forall>ind\<in>set pop. length (X ind) = length (W p)"
  from do_int64_returns [OF assms(1,2) lens] obtain pop' rs' where
    run: "ConsiderMaximumWeightRepair_do p pop rs = Inr (pop', rs')" by blast
  have len: "length pop' = length pop" using do_rows [OF run] by simp
  have "usage (X (pop' ! i)) (W p) \<le> sint (C p)" if "i < length pop" for i
  proof -
    have mem: "pop' ! i \<in> set pop'" using that len by simp
    from do_rows [OF run] that obtain u rs1 wt' rs2 where
      "removal_loop (dtype p) (C p) (W p) (X (pop ! i)) u rs1 = Inr (X (pop' ! i), wt', rs2)"
      by blast
    from removal_loop_subset [OF this] have "length (X (pop' ! i)) = length (X (pop ! i))"
      by simp
    then have "length (X (pop' ! i)) = length (W p)" using lens that by simp
    then show ?thesis
      using do_int64_output_within [OF assms(1,2) run] mem
        within_capacity_int64_usage [OF _ assms(3)] by blast
  qed
  then have "\<forall>i<length pop.
       usage (X (pop' ! i)) (W p) \<le> sint (C p) \<and>
       constraint_violation p (X (pop' ! i)) = 0 \<and>
       constraint_violation p (X (pop' ! i)) \<le> constraint_violation p (X (pop ! i))"
    by (simp add: constraint_violation_def)
  then show "\<exists>pop' rs'. ConsiderMaximumWeightRepair_do p pop rs = Inr (pop', rs') \<and>
               length pop' = length pop \<and>
               (\<forall>i<length pop.
                  usage (X (pop' ! i)) (W p) \<le> sint (C p) \<and>
                  constraint_violation p (X (pop' ! i)) = 0 \<and>
                  constraint_violation p (X (pop' ! i))
                    \<le> constraint_violation p (X (pop ! i)))"
    using run len by blast
qed

theorem repair_feasible_witness:
  "\<exists>pop' rs'.
     ConsiderMaximumWeightRepair_do \<lparr>dtype = int64, C = 5, W = [3, 4, 2]\<rparr>
       [\<lparr>X = [True, True, True], F = None, CV = None\<rparr>,
        \<lparr>X = [True, False, False], F = None, CV = None\<rparr>] (\<lambda>n. n) = Inr (pop', rs') \<and>
     length pop' = 2 \<and>
     usage (X (pop' ! 0)) [3, 4, 2] \<le> 5 \<and>
     usage (X (pop' ! 1)) [3, 4, 2] \<le> 5 \<and>
     constraint_violation \<lparr>dtype = int64, C = 5, W = [3, 4, 2]\<rparr> (X (pop' ! 0)) = 0"
proof -
  let ?p = "\<lparr>dtype = int64, C = 5 :: 64 word, W = [3, 4, 2]\<rparr>"
  let ?pop = "[\<lparr>X = [True, True, True], F = None, CV = None\<rparr>,
               \<lparr>X = [True, False, False], F = None, CV = None\<rparr>]"
  have h1: "dtype ?p = int64" by simp
  have h2: "0 \<le> sint (C ?p)" by simp
  have h3: "fits_int64 (W ?p)" by (simp add: fits_int64_def)
  have h4: "\<forall>ind\<in>set ?pop. length (X ind) = length (W ?p)" by simp
  from repair_feasible [OF h1 h2 h3, of ?pop "\<lambda>n. n"] h4 obtain pop' rs' where
    run: "ConsiderMaximumWeightRepair_do ?p ?pop (\<lambda>n. n) = Inr (pop', rs')"
    and len: "length pop' = length ?pop"
    and all: "\<forall>i<length ?pop.
                usage (X (pop' ! i)) (W ?p) \<le> sint (C ?p) \<and>
                constraint_violation ?p (X (pop' ! i)) = 0 \<and>
                constraint_violation ?p (X (pop' ! i))
                  \<le> constraint_violation ?p (X (?pop ! i))"
    by blast
  from all [rule_format, of 0] all [rule_format, of 1] have
    "usage (X (pop' ! 0)) [3, 4, 2] \<le> 5" "usage (X (pop' ! 1)) [3, 4, 2] \<le> 5"
    "constraint_violation ?p (X (pop' ! 0)) = 0"
    by simp_all
  then show ?thesis using run len by auto
qed

text \<open>
  Against the claim as it is written: int64 sums wrap around. Two items of weight
  \<open>2\<^sup>6\<^sup>2\<close> with capacity 5 are non-negative data; the weight of the row that picks both
  is computed as \<open>-2\<^sup>6\<^sup>3\<close>, the loop is not entered, and the row is returned with a usage of
  \<open>2\<^sup>6\<^sup>3\<close>, above the capacity.
\<close>

theorem repair_feasible_counterexample:
  "0 \<le> sint (4611686018427387904 :: 64 word) \<and> 0 \<le> sint (5 :: 64 word) \<and>
   ConsiderMaximumWeightRepair_do
      \<lparr>dtype = int64, C = 5, W = [4611686018427387904, 4611686018427387904]\<rparr>
      [\<lparr>X = [True, True], F = None, CV = None\<rparr>] (\<lambda>n. 0)
     = Inr ([\<lparr>X = [True, True], F = None, CV = None\<rparr>], \<lambda>n. 0) \<and>
   sint (5 :: 64 word) < usage [True, True] [4611686018427387904, 4611686018427387904]"
  by (simp add: ConsiderMaximumWeightRepair_do_def pop_get_X_def pop_set_X_def
      row_weight_def mul_broadcast_def removal_loop.simps usage_def)

subsection \<open>Idempotence\<close>

text \<open>
  C3, for int64 weights. With non-negative weights and capacity, a population that the
  repair has returned is returned as it is by a second pass, which draws no random
  number; an individual that is within capacity before the repair (as the operator
  computes it, or with a usage \<open>dot(X, W)\<close> of at most \<open>Q\<close> when the lengths agree) comes
  out of it unchanged in every field. When the decision vectors have the length of the
  weight vector both passes do return.
\<close>

theorem repair_idempotent:
  assumes "dtype p = int64" and "\<forall>x\<in>set (W p). 0 \<le> sint x" and "0 \<le> sint (C p)"
  shows "(\<forall>pop' rs'. ConsiderMaximumWeightRepair_do p pop rs = Inr (pop', rs') \<longrightarrow>
            (\<forall>rs2. ConsiderMaximumWeightRepair_do p pop' rs2 = Inr (pop', rs2)) \<and>
            (\<forall>i<length pop.
               within_capacity int64 (C p) (W p) (X (pop ! i)) \<longrightarrow> pop' ! i = pop ! i) \<and>
            (\<forall>i<length pop.
               length (X (pop ! i)) = length (W p) \<and> usage (X (pop ! i)) (W p) \<le> sint (C p) \<longrightarrow>
               pop' ! i = pop ! i)) \<and>
         ((\<forall>ind\<in>set pop. length (X ind) = length (W p)) \<longrightarrow>
            (\<exists>pop' rs'. ConsiderMaximumWeightRepair_do p pop rs = Inr (pop', rs') \<and>
               ConsiderMaximumWeightRepair_do p pop' rs' = Inr (pop', rs')))"
proof (intro conjI allI impI)
  fix pop' rs' rs2
  assume run: "ConsiderMaximumWeightRepair_do p pop rs = Inr (pop', rs')"
  have "\<forall>ind\<in>set pop'. within_capacity (dtype p) (C p) (W p) (X ind)"
    using do_int64_output_within [OF assms(1,3) run] by (simp add: assms(1))
  then show "ConsiderMaximumWeightRepair_do p pop' rs2 = Inr (pop', rs2)"
    by (rule do_within_capacity)
next
  fix pop' rs' i
  assume "ConsiderMaximumWeightRepair_do p pop rs = Inr (pop', rs')"
    and "i < length pop" and "within_capacity int64 (C p) (W p) (X (pop ! i))"
  then show "pop' ! i = pop ! i" using do_unchanged [of p pop rs pop' rs' i]
    by (simp add: assms(1))
next
  fix pop' rs' i
  assume run: "ConsiderMaximumWeightRepair_do p pop rs = Inr (pop', rs')"
    and i: "i < length pop"
    and ok: "length (X (pop ! i)) = length (W p) \<and> usage (X (pop ! i)) (W p) \<le> sint (C p)"
  from ok have "within_capacity int64 (C p) (W p) (X (pop ! i))"
    using within_capacity_int64_usage_nonneg [OF _ assms(2)] by blast
  with run i show "pop' ! i = pop ! i" using do_unchanged [of p pop rs pop' rs' i]
    by (simp add: assms(1))
next
  assume lens: "\<forall>ind\<in>set pop. length (X ind) = length (W p)"
  from do_int64_returns [OF assms(1,3) lens] obtain pop' rs' where
    run: "ConsiderMaximumWeightRepair_do p pop rs = Inr (pop', rs')" by blast
  have "\<forall>ind\<in>set pop'. within_capacity (dtype p) (C p) (W p) (X ind)"
    using do_int64_output_within [OF assms(1,3) run] by (simp add: assms(1))
  then have "ConsiderMaximumWeightRepair_do p pop' rs' = Inr (pop', rs')"
    by (rule do_within_capacity)
  with run show "\<exists>pop' rs'. ConsiderMaximumWeightRepair_do p pop rs = Inr (pop', rs') \<and>
               ConsiderMaximumWeightRepair_do p pop' rs' = Inr (pop', rs')" by blast
qed

theorem repair_idempotent_witness:
  "\<exists>pop' rs'.
     ConsiderMaximumWeightRepair_do \<lparr>dtype = int64, C = 5, W = [3, 4, 2]\<rparr>
       [\<lparr>X = [True, True, True], F = None, CV = None\<rparr>,
        \<lparr>X = [True, False, False], F = None, CV = None\<rparr>] (\<lambda>n. n) = Inr (pop', rs') \<and>
     ConsiderMaximumWeightRepair_do \<lparr>dtype = int64, C = 5, W = [3, 4, 2]\<rparr> pop' rs'
       = Inr (pop', rs') \<and>
     pop' ! 1 = \<lparr>X = [True, False, False], F = None, CV = None\<rparr>"
proof -
  let ?p = "\<lparr>dtype = int64, C = 5 :: 64 word, W = [3, 4, 2]\<rparr>"
  let ?pop = "[\<lparr>X = [True, True, True], F = None, CV = None\<rparr>,
               \<lparr>X = [True, False, False], F = None, CV = None\<rparr>]"
  have h0: "dtype ?p = int64" by simp
  have h1: "\<forall>x\<in>set (W ?p). 0 \<le> sint x" by simp
  have h2: "0 \<le> sint (C ?p)" by simp
  have h3: "\<forall>ind\<in>set ?pop. length (X ind) = length (W ?p)" by simp
  have h4: "length (X (?pop ! 1)) = length (W ?p) \<and> usage (X (?pop ! 1)) (W ?p) \<le> sint (C ?p)"
    by (simp add: usage_def)
  note inst = repair_idempotent [OF h0 h1 h2, of ?pop "\<lambda>n. n"]
  from inst h3 obtain pop' rs' where
    run: "ConsiderMaximumWeightRepair_do ?p ?pop (\<lambda>n. n) = Inr (pop', rs')"
    and again: "ConsiderMaximumWeightRepair_do ?p pop' rs' = Inr (pop', rs')"
    by blast
  from inst run h4 have "pop' ! 1 = ?pop ! 1" by simp
  with run again show ?thesis by auto
qed

text \<open>
  Against the claim as it is written: float64 sums round. The double nearest to
  \<open>10\<^sup>1\<^sup>6 + 1\<close> is \<open>10\<^sup>1\<^sup>6\<close>. With weights \<open>10\<^sup>1\<^sup>6\<close> and 1 and capacity 1/2, all non-negative,
  the row that picks both items has the computed weight \<open>10\<^sup>1\<^sup>6\<close>; the draw removes the
  first item and the tracked weight becomes 0, so the first pass returns the second item
  picked; the second pass computes its weight afresh as 1, above the capacity, and
  removes it.
\<close>

lemma float64_round_examples:
  "float64_round 0 = 0"
  "float64_round 10000000000000000 = 10000000000000000"
  "float64_round 10000000000000001 = 10000000000000000"
  "float64_round 1 = 1"
  by code_simp+

theorem repair_idempotent_counterexample:
  "(0 :: rat) \<le> 10000000000000000 \<and> (0 :: rat) \<le> 1 \<and> (0 :: rat) \<le> 1 / 2 \<and>
   ConsiderMaximumWeightRepair_do \<lparr>dtype = float64, C = 1 / 2, W = [10000000000000000, 1]\<rparr>
      [\<lparr>X = [True, True], F = None, CV = None\<rparr>] (\<lambda>n. 0)
     = Inr ([\<lparr>X = [False, True], F = None, CV = None\<rparr>], \<lambda>n. 0) \<and>
   ConsiderMaximumWeightRepair_do \<lparr>dtype = float64, C = 1 / 2, W = [10000000000000000, 1]\<rparr>
      [\<lparr>X = [False, True], F = None, CV = None\<rparr>] (\<lambda>n. 0)
     = Inr ([\<lparr>X = [False, False], F = None, CV = None\<rparr>], \<lambda>n. 0)"
  by (simp add: ConsiderMaximumWeightRepair_do_def pop_get_X_def pop_set_X_def
      row_weight_def mul_broadcast_def removal_loop.simps remove_item_def
      random_choice_def np_where_def float64_def float64_round_examples)

subsection \<open>Bookkeeping and termination\<close>

text \<open>
  C10, for int64 weights that fit and a decision vector of the length of the weight
  vector. The weight that the operator computes for the row first is its usage
  \<open>dot(z, W)\<close>, and at every step of the loop the tracked weight is the usage of the
  current \<open>z\<close>, which is also what computing it afresh gives. So the loop's condition
  tests the true usage, and the row it ends with has usage at most \<open>Q\<close>.
\<close>

theorem bookkeeping_exact:
  assumes "fits_int64 w" and "row_weights int64 Z w = Inr weights"
    and "i < length Z" and "length (Z ! i) = length w"
  shows "zip Z weights ! i = (Z ! i, weights ! i) \<and>
         sint (weights ! i) = usage (Z ! i) w \<and>
         (\<forall>st\<in>set (removal_trace int64 Q w (Z ! i) (weights ! i) rs).
            sint (snd st) = usage (fst st) w \<and> row_weight int64 (fst st) w = Inr (snd st)) \<and>
         (\<forall>z' wt' rs'. removal_loop int64 Q w (Z ! i) (weights ! i) rs = Inr (z', wt', rs') \<longrightarrow>
            last (removal_trace int64 Q w (Z ! i) (weights ! i) rs) = (z', wt') \<and>
            sint wt' = usage z' w \<and> usage z' w \<le> sint Q)"
proof -
  from row_weights_nth [OF assms(2)] assms(3) have
    len: "length weights = length Z" and
    rw: "row_weight int64 (Z ! i) w = Inr (weights ! i)" by simp_all
  have start: "weights ! i = dot (Z ! i) w"
    using rw assms(4) by (simp add: row_weight_int64_dot)
  have exact: "\<forall>st\<in>set (removal_trace int64 Q w (Z ! i) (weights ! i) rs).
           length (fst st) = length w \<and> snd st = dot (fst st) w"
    unfolding start using assms(4) by (rule removal_trace_int64_exact)
  show ?thesis
  proof (intro conjI allI impI ballI)
    show "zip Z weights ! i = (Z ! i, weights ! i)" using assms(3) len by simp
    show "sint (weights ! i) = usage (Z ! i) w"
      unfolding start using assms(1) by (rule sint_dot_fits)
  next
    fix st assume "st \<in> set (removal_trace int64 Q w (Z ! i) (weights ! i) rs)"
    with exact have st: "length (fst st) = length w" "snd st = dot (fst st) w" by auto
    show "sint (snd st) = usage (fst st) w" using st(2) assms(1) by (simp add: sint_dot_fits)
    show "row_weight int64 (fst st) w = Inr (snd st)"
      using st by (simp add: row_weight_int64_dot)
  next
    fix z' wt' rs'
    assume loop: "removal_loop int64 Q w (Z ! i) (weights ! i) rs = Inr (z', wt', rs')"
    show "last (removal_trace int64 Q w (Z ! i) (weights ! i) rs) = (z', wt')"
      using loop by (rule removal_trace_last)
    from removal_loop_int64_exact [OF assms(4)] loop have
      "wt' = dot z' w" "sint wt' \<le> sint Q" unfolding start by blast+
    then show "sint wt' = usage z' w" and "usage z' w \<le> sint Q"
      using assms(1) by (simp_all add: sint_dot_fits)
  qed
qed

theorem bookkeeping_exact_witness:
  "row_weights int64 [[True, True, True], [True, False, False]] [3, 4, 2] = Inr [9, 3] \<and>
   removal_trace int64 5 [3, 4, 2] [True, True, True] 9 (\<lambda>n. n) =
     [([True, True, True], 9), ([False, True, True], 6), ([False, True, False], 4)] \<and>
   sint (9 :: 64 word) = usage [True, True, True] [3, 4, 2] \<and>
   sint (6 :: 64 word) = usage [False, True, True] [3, 4, 2] \<and>
   sint (4 :: 64 word) = usage [False, True, False] [3, 4, 2]"
proof -
  let ?Z = "[[True, True, True], [True, False, False]]"
  have fits: "fits_int64 [3, 4, 2]" by (simp add: fits_int64_def)
  have ws: "row_weights int64 ?Z [3, 4, 2] = Inr [9, 3]"
    by (simp add: row_weight_def mul_broadcast_def)
  have i: "0 < length ?Z" by simp
  have len: "length (?Z ! 0) = length [3, 4, 2 :: 64 word]" by simp
  from bookkeeping_exact [OF fits ws i len, of 5 "\<lambda>n. n"]
  have "\<forall>st\<in>set (removal_trace int64 5 [3, 4, 2] [True, True, True] 9 (\<lambda>n. n)).
          sint (snd st) = usage (fst st) [3, 4, 2]" by simp
  then have "sint (9 :: 64 word) = usage [True, True, True] [3, 4, 2] \<and>
        sint (6 :: 64 word) = usage [False, True, True] [3, 4, 2] \<and>
        sint (4 :: 64 word) = usage [False, True, False] [3, 4, 2]"
    unfolding example_trace by simp
  with ws example_trace show ?thesis by blast
qed

text \<open>
  Against the claim as it is written. A decision vector of length 1 is broadcast against
  two weights 3 and 4: the tracked weight starts at 7 and is 4 after the removal, while
  the weight of the cleared row computed afresh is 0. And int64 sums wrap around: for
  two picked items of weight \<open>2\<^sup>6\<^sup>2\<close> the cached weight is \<open>-2\<^sup>6\<^sup>3\<close> and the usage \<open>2\<^sup>6\<^sup>3\<close>.
\<close>

theorem bookkeeping_counterexample:
  "row_weights int64 [[True]] [3, 4] = Inr [7] \<and>
   removal_trace int64 5 [3, 4] [True] 7 (\<lambda>n. 0) = [([True], 7), ([False], 4)] \<and>
   row_weight int64 [False] [3, 4] = Inr 0 \<and>
   map_sum id (map sint)
     (row_weights int64 [[True, True]] [4611686018427387904, 4611686018427387904])
     = Inr [- 9223372036854775808] \<and>
   usage [True, True] [4611686018427387904, 4611686018427387904] = 9223372036854775808"
  by (simp add: row_weight_def mul_broadcast_def removal_trace.simps remove_item_def
      random_choice_def np_where_def usage_def)

text \<open>
  C4. In every arithmetic the loop terminates (it is a total function, by the measure
  of the picked items) and completes at most one pass per picked item, hence at most as
  many as there are items. For int64 weights that fit, a non-negative capacity and a
  decision vector of the length of the weight vector, it ends normally, within capacity.
\<close>

theorem removal_loop_terminates:
  "removals D Q w z wt rs \<le> length (np_where z) \<and>
   length (np_where z) \<le> length z \<and>
   (0 \<le> sint K \<and> fits_int64 v \<and> length z = length v \<longrightarrow>
      (\<exists>z' wt' rs'. removal_loop int64 K v z (dot z v) rs = Inr (z', wt', rs') \<and>
         usage z' v \<le> sint K))"
proof (intro conjI impI)
  show "removals D Q w z wt rs \<le> length (np_where z)"
    using removal_trace_length [of D Q w z wt rs] by (simp add: removals_def)
  show "length (np_where z) \<le> length z" by (rule np_where_length)
  assume h: "0 \<le> sint K \<and> fits_int64 v \<and> length z = length v"
  then obtain z' wt' rs' where
    loop: "removal_loop int64 K v z (dot z v) rs = Inr (z', wt', rs')"
    using removal_loop_int64_returns [of K z v "dot z v" rs] by (metis prod_cases3)
  from removal_loop_int64_exact [OF _ loop] h have "wt' = dot z' v" "sint wt' \<le> sint K"
    by blast+
  then have "usage z' v \<le> sint K" using h by (simp add: sint_dot_fits)
  with loop show "\<exists>z' wt' rs'. removal_loop int64 K v z (dot z v) rs = Inr (z', wt', rs') \<and>
         usage z' v \<le> sint K" by blast
qed

theorem removal_loop_terminates_witness:
  "removals int64 5 [3, 4, 2] [True, True, True] 9 (\<lambda>n. n) = 2 \<and>
   length (np_where [True, True, True]) = 3 \<and>
   (\<exists>z' wt' rs'. removal_loop int64 5 [3, 4, 2] [True, True, True] 9 (\<lambda>n. n)
        = Inr (z', wt', rs') \<and> usage z' [3, 4, 2] \<le> 5)"
proof -
  have h: "0 \<le> sint (5 :: 64 word) \<and> fits_int64 [3, 4, 2] \<and>
           length [True, True, True] = length [3, 4, 2 :: 64 word]"
    by (simp add: fits_int64_def)
  have d: "dot [True, True, True] [3, 4, 2 :: 64 word] = 9" by simp
  have n: "length (np_where [True, True, True]) = 3" by (simp add: np_where_def upt_rec)
  from removal_loop_terminates
    [of int64 5 "[3, 4, 2]" "[True, True, True]" 9 "\<lambda>n. n" 5 "[3, 4, 2]"] h
  obtain z' wt' rs' where
    "removal_loop int64 5 [3, 4, 2] [True, True, True] (dot [True, True, True] [3, 4, 2])
       (\<lambda>n. n) = Inr (z', wt', rs')" "usage z' [3, 4, 2] \<le> sint (5 :: 64 word)" by blast
  then have "\<exists>z' wt' rs'. removal_loop int64 5 [3, 4, 2] [True, True, True] 9 (\<lambda>n. n)
        = Inr (z', wt', rs') \<and> usage z' [3, 4, 2] \<le> 5" unfolding d by auto
  then show ?thesis using n by (simp add: removals_def example_trace)
qed

subsection \<open>Monotone usage\<close>

lemma removal_trace_int64_descends:
  assumes len: "length z = length w" and fits: "fits_int64 w"
    and above: "sint Q < usage z w" and pos: "0 < usage z w"
  shows "\<exists>k. Suc k < length (removal_trace int64 Q w z (dot z w) rs) \<and>
             sint (snd (removal_trace int64 Q w z (dot z w) rs ! Suc k))
               < sint (snd (removal_trace int64 Q w z (dot z w) rs ! k))"
proof -
  let ?tr = "removal_trace int64 Q w z (dot z w) rs"
  obtain tr where tr: "?tr = (z, dot z w) # tr"
    using removal_trace_hd [of int64 Q w z "dot z w" rs] by blast
  then have ne: "?tr \<noteq> []" by simp
  then have mem: "last ?tr \<in> set ?tr" by simp
  with removal_trace_int64_exact [OF len, of Q rs] have
    ex: "length (fst (last ?tr)) = length w" "snd (last ?tr) = dot (fst (last ?tr)) w"
    by blast+
  have start: "sint (dot z w) = usage z w" using fits by (rule sint_dot_fits)
  have "sint (snd (last ?tr)) < usage z w"
  proof -
    consider
      (stop) "\<not> gt int64 (snd (last ?tr)) Q"
      | (raise) rs1 e where
          "remove_item int64 w (fst (last ?tr)) (snd (last ?tr)) rs1 = Inl e"
      using removal_trace_end [of int64 Q w z "dot z w" rs] by blast
    then show ?thesis
    proof cases
      case stop
      then show ?thesis using above by simp
    next
      case raise
      from remove_item_int64_raises [OF ex(1) raise] have "np_where (fst (last ?tr)) = []"
        by simp
      then have "snd (last ?tr) = 0" using ex(2) by (simp add: np_where_Nil_dot)
      then show ?thesis using pos by simp
    qed
  qed
  moreover have "last (map (\<lambda>st. sint (snd st)) ?tr) = sint (snd (last ?tr))"
    using ne by (rule last_map)
  moreover have "hd (map (\<lambda>st. sint (snd st)) ?tr) = usage z w"
    using tr start by simp
  ultimately have "last (map (\<lambda>st. sint (snd st)) ?tr) < hd (map (\<lambda>st. sint (snd st)) ?tr)"
    by simp
  moreover have "map (\<lambda>st. sint (snd st)) ?tr \<noteq> []" using ne by simp
  ultimately obtain k where "Suc k < length (map (\<lambda>st. sint (snd st)) ?tr)"
    "map (\<lambda>st. sint (snd st)) ?tr ! Suc k < map (\<lambda>st. sint (snd st)) ?tr ! k"
    using strict_descent by blast
  then have "Suc k < length ?tr \<and> sint (snd (?tr ! Suc k)) < sint (snd (?tr ! k))" by simp
  then show ?thesis by blast
qed

text \<open>
  C8, for non-negative int64 weights that fit. From a tracked usage that is not
  negative, the tracked usage does not go up from one state of the loop to the next,
  whatever the lengths. For a decision vector of the length of the weight vector the
  loop starts from the usage \<open>dot(z, W)\<close>, which is not negative; when that usage
  exceeds the capacity and is positive, as it is whenever the capacity is not negative,
  some step makes the tracked usage strictly smaller.
\<close>

theorem usage_nonincreasing:
  assumes "\<forall>x\<in>set w. 0 \<le> sint x" and "fits_int64 w"
  shows "(0 \<le> sint wt \<longrightarrow>
            successively (\<lambda>a b. sint b \<le> sint a)
              (map snd (removal_trace int64 Q w z wt rs))) \<and>
         (length z = length w \<longrightarrow>
            row_weight int64 z w = Inr (dot z w) \<and> sint (dot z w) = usage z w \<and>
            0 \<le> usage z w) \<and>
         (length z = length w \<and> sint Q < usage z w \<and> 0 < usage z w \<longrightarrow>
            (\<exists>k. Suc k < length (removal_trace int64 Q w z (dot z w) rs) \<and>
                 sint (snd (removal_trace int64 Q w z (dot z w) rs ! Suc k))
                   < sint (snd (removal_trace int64 Q w z (dot z w) rs ! k)))) \<and>
         (0 \<le> sint Q \<and> sint Q < usage z w \<longrightarrow> 0 < usage z w)"
proof (intro conjI impI)
  assume "0 \<le> sint wt"
  with assms show "successively (\<lambda>a b. sint b \<le> sint a)
              (map snd (removal_trace int64 Q w z wt rs))"
    by (rule removal_trace_int64_nonincreasing)
next
  assume "length z = length w"
  then show "row_weight int64 z w = Inr (dot z w)" by (rule row_weight_int64_dot)
next
  show "sint (dot z w) = usage z w" using assms(2) by (rule sint_dot_fits)
  show "0 \<le> usage z w" using assms(1) by (rule usage_nonneg)
next
  assume "length z = length w \<and> sint Q < usage z w \<and> 0 < usage z w"
  then show "\<exists>k. Suc k < length (removal_trace int64 Q w z (dot z w) rs) \<and>
                 sint (snd (removal_trace int64 Q w z (dot z w) rs ! Suc k))
                   < sint (snd (removal_trace int64 Q w z (dot z w) rs ! k))"
    using removal_trace_int64_descends [OF _ assms(2)] by blast
next
  assume "0 \<le> sint Q \<and> sint Q < usage z w"
  then show "0 < usage z w" by simp
qed

theorem usage_nonincreasing_witness:
  "map snd (removal_trace int64 5 [3, 4, 2] [True, True, True] 9 (\<lambda>n. n)) = [9, 6, 4] \<and>
   successively (\<lambda>a b. sint b \<le> sint a) [9, 6, 4 :: 64 word] \<and>
   (\<exists>k. Suc k < length (removal_trace int64 5 [3, 4, 2] [True, True, True] 9 (\<lambda>n. n)) \<and>
        sint (snd (removal_trace int64 5 [3, 4, 2] [True, True, True] 9 (\<lambda>n. n) ! Suc k))
          < sint (snd (removal_trace int64 5 [3, 4, 2] [True, True, True] 9 (\<lambda>n. n) ! k)))"
proof -
  have h1: "\<forall>x\<in>set [3, 4, 2 :: 64 word]. 0 \<le> sint x" by simp
  have h2: "fits_int64 [3, 4, 2]" by (simp add: fits_int64_def)
  have tr: "map snd (removal_trace int64 5 [3, 4, 2] [True, True, True] 9 (\<lambda>n. n)) = [9, 6, 4]"
    by (simp add: example_trace)
  have d: "dot [True, True, True] [3, 4, 2 :: 64 word] = 9" by simp
  have start: "0 \<le> sint (9 :: 64 word)" by simp
  have above: "length [True, True, True] = length [3, 4, 2 :: 64 word] \<and>
      sint (5 :: 64 word) < usage [True, True, True] [3, 4, 2] \<and>
      0 < usage [True, True, True] [3, 4, 2]" by (simp add: usage_def)
  note inst = usage_nonincreasing [OF h1 h2, of 9 5 "[True, True, True]" "\<lambda>n. n"]
  from inst start have "successively (\<lambda>a b. sint b \<le> sint a)
      (map snd (removal_trace int64 5 [3, 4, 2] [True, True, True] 9 (\<lambda>n. n)))" by blast
  then have "successively (\<lambda>a b. sint b \<le> sint a) [9, 6, 4 :: 64 word]" unfolding tr .
  moreover from inst above have
    "\<exists>k. Suc k < length (removal_trace int64 5 [3, 4, 2] [True, True, True]
                 (dot [True, True, True] [3, 4, 2]) (\<lambda>n. n)) \<and>
        sint (snd (removal_trace int64 5 [3, 4, 2] [True, True, True]
                 (dot [True, True, True] [3, 4, 2]) (\<lambda>n. n) ! Suc k))
          < sint (snd (removal_trace int64 5 [3, 4, 2] [True, True, True]
                 (dot [True, True, True] [3, 4, 2]) (\<lambda>n. n) ! k))" by blast
  then have
    "\<exists>k. Suc k < length (removal_trace int64 5 [3, 4, 2] [True, True, True] 9 (\<lambda>n. n)) \<and>
        sint (snd (removal_trace int64 5 [3, 4, 2] [True, True, True] 9 (\<lambda>n. n) ! Suc k))
          < sint (snd (removal_trace int64 5 [3, 4, 2] [True, True, True] 9 (\<lambda>n. n) ! k))"
    unfolding d .
  ultimately show ?thesis using tr by blast
qed

text \<open>
  Against the claim as it is written, which asks only for non-negative weights. With a
  negative capacity and an item of weight zero the usage starts above the capacity, the
  only pass leaves it where it was, and the next draw finds no picked item and raises.
  With int64 weights that do not fit, the computed weight of a row has wrapped around to
  a negative number, and removing an item of weight \<open>2\<^sup>6\<^sup>3 - 1\<close> makes the tracked usage
  go up, from \<open>-2\<^sup>6\<^sup>3 + 8\<close> to 9. With a decision vector of length 1 broadcast against the
  weights 0 and 5, the tracked usage starts at 5 above the capacity 3, the only pass
  subtracts 0, and the next draw raises.
\<close>

theorem usage_never_decreases_counterexample:
  "row_weight int64 [True] [0] = Inr 0 \<and> sint (- 1 :: 64 word) < sint (0 :: 64 word) \<and>
   map snd (removal_trace int64 (- 1) [0] [True] 0 (\<lambda>n. 0)) = [0, 0] \<and>
   removal_loop int64 (- 1) [0] [True] 0 (\<lambda>n. 0) = Inl ValueError \<and>
   map_sum id sint (row_weight int64 [True, True, True] [9223372036854775807, 7, 2])
     = Inr (- 9223372036854775800) \<and>
   map (\<lambda>st. sint (snd st))
     (removal_trace int64 (- 9223372036854775803) [9223372036854775807, 7, 2]
        [True, True, True] (dot [True, True, True] [9223372036854775807, 7, 2]) (\<lambda>n. 0))
     = [- 9223372036854775800, 9, 2, 0] \<and>
   row_weight int64 [True] [0, 5] = Inr 5 \<and>
   map snd (removal_trace int64 3 [0, 5] [True] 5 (\<lambda>n. 0)) = [5, 5] \<and>
   removal_loop int64 3 [0, 5] [True] 5 (\<lambda>n. 0) = Inl ValueError"
  by (simp add: row_weight_def mul_broadcast_def removal_trace.simps removal_loop.simps
      remove_item_def random_choice_def np_where_def upt_rec)

subsection \<open>Error conditions\<close>

lemma do_int64_raises_only:
  assumes dt: "dtype p = int64" and lens: "\<forall>ind\<in>set pop. length (X ind) = length (W p)"
    and err: "ConsiderMaximumWeightRepair_do p pop rs = Inl e"
  shows "e = ValueError \<and> sint (C p) < 0"
proof -
  let ?rows = "map (\<lambda>z. (z, dot z (W p))) (map X pop)"
  from err have "repair_rows int64 (C p) (W p) ?rows rs = Inl e"
    unfolding do_int64_unfold [OF dt lens] by (auto split: sum.splits)
  from repair_rows_raises [OF this] obtain row rs1 where
    row: "row \<in> set ?rows" and
    loop: "removal_loop int64 (C p) (W p) (fst row) (snd row) rs1 = Inl e" by blast
  from row lens have "length (fst row) = length (W p)" "snd row = dot (fst row) (W p)"
    by auto
  then show ?thesis using loop by (rule removal_loop_int64_raises_only)
qed

lemma do_int64_fails:
  assumes dt: "dtype p = int64" and lens: "\<forall>ind\<in>set pop. length (X ind) = length (W p)"
    and nonneg: "\<forall>x\<in>set (W p). 0 \<le> sint x" and fits: "fits_int64 (W p)"
    and neg: "sint (C p) < 0" and ne: "pop \<noteq> []"
  shows "ConsiderMaximumWeightRepair_do p pop rs = Inl ValueError"
proof -
  from ne obtain ind pop1 where pop: "pop = ind # pop1" by (cases pop) auto
  have "length (X ind) = length (W p)" using lens pop by simp
  from removal_loop_int64_fails [OF nonneg fits neg this refl]
  have "removal_loop int64 (C p) (W p) (X ind) (dot (X ind) (W p)) rs = Inl ValueError" .
  then show ?thesis
    unfolding do_int64_unfold [OF dt lens] by (simp add: pop)
qed

lemma do_mismatch:
  assumes "pop \<noteq> []"
    and "\<forall>ind\<in>set pop.
           length (X ind) \<noteq> length (W p) \<and> length (W p) \<noteq> 1 \<and> length (X ind) \<noteq> 1"
  shows "ConsiderMaximumWeightRepair_do p pop rs = Inl ValueError"
proof -
  from assms(1) obtain ind pop1 where pop: "pop = ind # pop1" by (cases pop) auto
  have "row_weight (dtype p) (X ind) (W p) = Inl ValueError"
    using assms(2) pop by (simp add: row_weight_def mul_broadcast_def)
  then show ?thesis
    by (simp add: ConsiderMaximumWeightRepair_do_def Let_def pop_get_X_def pop)
qed

lemma no_subset_iff:
  assumes "\<forall>x\<in>set w. 0 \<le> sint x"
  shows "(Q < 0) = (\<forall>s. length s = length w \<longrightarrow> Q < usage s w)"
proof
  assume "Q < 0"
  then show "\<forall>s. length s = length w \<longrightarrow> Q < usage s w"
    using usage_nonneg [OF assms] by (auto intro: less_le_trans)
next
  assume "\<forall>s. length s = length w \<longrightarrow> Q < usage s w"
  then have "Q < usage (replicate (length w) False) w" by simp
  then show "Q < 0" by (simp add: usage_def dot_none_picked)
qed

text \<open>
  C5, as the operator behaves on a non-empty population. It has no error of its own:
  what it raises is numpy's. When every decision vector has a length that cannot be
  broadcast against the weight vector (the lengths differ and neither is 1) it raises
  \<open>ValueError\<close>. When every row is within capacity as the operator computes it, it
  returns the population as it is, whatever the lengths. For int64 weights and decision
  vectors of the length of the weight vector, the only error is the \<open>ValueError\<close> of a
  draw from an empty selection, and it needs a negative capacity; when in addition the
  weights are non-negative and fit, the repair fails exactly when the capacity is
  negative, which is exactly when no selection of items is within capacity, and returns
  normally otherwise.
\<close>

theorem repair_failures:
  assumes "pop \<noteq> []"
  shows "((\<forall>ind\<in>set pop.
             length (X ind) \<noteq> length (W p) \<and> length (W p) \<noteq> 1 \<and> length (X ind) \<noteq> 1) \<longrightarrow>
            ConsiderMaximumWeightRepair_do p pop rs = Inl ValueError) \<and>
         ((\<forall>ind\<in>set pop. within_capacity (dtype p) (C p) (W p) (X ind)) \<longrightarrow>
            ConsiderMaximumWeightRepair_do p pop rs = Inr (pop, rs)) \<and>
         (dtype q = int64 \<and> (\<forall>ind\<in>set pop. length (X ind) = length (W q)) \<longrightarrow>
            (\<forall>e. ConsiderMaximumWeightRepair_do q pop rs = Inl e \<longrightarrow>
                 e = ValueError \<and> sint (C q) < 0) \<and>
            ((\<forall>x\<in>set (W q). 0 \<le> sint x) \<and> fits_int64 (W q) \<longrightarrow>
               ((\<exists>e. ConsiderMaximumWeightRepair_do q pop rs = Inl e) = (sint (C q) < 0)) \<and>
               ((\<exists>res. ConsiderMaximumWeightRepair_do q pop rs = Inr res) = (0 \<le> sint (C q))) \<and>
               ((sint (C q) < 0) =
                  (\<forall>s. length s = length (W q) \<longrightarrow> sint (C q) < usage s (W q)))))"
proof (intro conjI impI allI)
  assume "\<forall>ind\<in>set pop.
      length (X ind) \<noteq> length (W p) \<and> length (W p) \<noteq> 1 \<and> length (X ind) \<noteq> 1"
  with assms show "ConsiderMaximumWeightRepair_do p pop rs = Inl ValueError"
    by (rule do_mismatch)
next
  assume "\<forall>ind\<in>set pop. within_capacity (dtype p) (C p) (W p) (X ind)"
  then show "ConsiderMaximumWeightRepair_do p pop rs = Inr (pop, rs)"
    by (rule do_within_capacity)
next
  fix e
  assume "dtype q = int64 \<and> (\<forall>ind\<in>set pop. length (X ind) = length (W q))"
    and "ConsiderMaximumWeightRepair_do q pop rs = Inl e"
  then show "e = ValueError" and "sint (C q) < 0" using do_int64_raises_only by blast+
next
  assume h: "dtype q = int64 \<and> (\<forall>ind\<in>set pop. length (X ind) = length (W q))"
    and g: "(\<forall>x\<in>set (W q). 0 \<le> sint x) \<and> fits_int64 (W q)"
  have only: "\<And>e. ConsiderMaximumWeightRepair_do q pop rs = Inl e \<Longrightarrow> sint (C q) < 0"
    using do_int64_raises_only h by blast
  have fails: "sint (C q) < 0 \<Longrightarrow> ConsiderMaximumWeightRepair_do q pop rs = Inl ValueError"
    using do_int64_fails [of q pop rs] h g assms by blast
  show iff: "(\<exists>e. ConsiderMaximumWeightRepair_do q pop rs = Inl e) = (sint (C q) < 0)"
    using only fails by blast
  show "(\<exists>res. ConsiderMaximumWeightRepair_do q pop rs = Inr res) = (0 \<le> sint (C q))"
  proof
    assume "\<exists>res. ConsiderMaximumWeightRepair_do q pop rs = Inr res"
    then show "0 \<le> sint (C q)" using fails by (cases "sint (C q) < 0") auto
  next
    assume "0 \<le> sint (C q)"
    then show "\<exists>res. ConsiderMaximumWeightRepair_do q pop rs = Inr res"
      using do_int64_returns [of q pop rs] h by auto
  qed
next
  assume "(\<forall>x\<in>set (W q). 0 \<le> sint x) \<and> fits_int64 (W q)"
  then show "(sint (C q) < 0) =
      (\<forall>s. length s = length (W q) \<longrightarrow> sint (C q) < usage s (W q))"
    using no_subset_iff [of "W q" "sint (C q)"] by blast
qed

theorem repair_failures_witness:
  "ConsiderMaximumWeightRepair_do \<lparr>dtype = int64, C = - 1, W = [5]\<rparr>
      [\<lparr>X = [True], F = None, CV = None\<rparr>] (\<lambda>n. 0) = Inl ValueError \<and>
   ConsiderMaximumWeightRepair_do \<lparr>dtype = int64, C = 5, W = [3, 4]\<rparr>
      [\<lparr>X = [True, True, True], F = None, CV = None\<rparr>] (\<lambda>n. 0) = Inl ValueError \<and>
   ConsiderMaximumWeightRepair_do \<lparr>dtype = int64, C = 10, W = [2]\<rparr>
      [\<lparr>X = [True, True], F = None, CV = None\<rparr>] (\<lambda>n. 0)
     = Inr ([\<lparr>X = [True, True], F = None, CV = None\<rparr>], \<lambda>n. 0) \<and>
   sint (- 1 :: 64 word) < usage [True] [5] \<and> sint (- 1 :: 64 word) < usage [False] [5]"
proof -
  let ?q = "\<lparr>dtype = int64, C = - 1 :: 64 word, W = [5]\<rparr>"
  let ?pop = "[\<lparr>X = [True], F = None, CV = None\<rparr>]"
  let ?p = "\<lparr>dtype = int64, C = 5 :: 64 word, W = [3, 4]\<rparr>"
  let ?big = "[\<lparr>X = [True, True, True], F = None, CV = None\<rparr>]"
  let ?r = "\<lparr>dtype = int64, C = 10 :: 64 word, W = [2]\<rparr>"
  let ?two = "[\<lparr>X = [True, True], F = None, CV = None\<rparr>]"
  have ne: "?pop \<noteq> []" by simp
  have h: "dtype ?q = int64 \<and> (\<forall>ind\<in>set ?pop. length (X ind) = length (W ?q))" by simp
  have g: "(\<forall>x\<in>set (W ?q). 0 \<le> sint x) \<and> fits_int64 (W ?q)" by (simp add: fits_int64_def)
  have neg: "sint (C ?q) < 0" by simp
  from repair_failures [OF ne, where p = ?q and q = ?q and rs = "\<lambda>n. 0"] h g neg
  have fails: "\<exists>e. ConsiderMaximumWeightRepair_do ?q ?pop (\<lambda>n. 0) = Inl e"
    and only: "\<forall>e. ConsiderMaximumWeightRepair_do ?q ?pop (\<lambda>n. 0) = Inl e \<longrightarrow> e = ValueError"
    and none: "\<forall>s. length s = length (W ?q) \<longrightarrow> sint (C ?q) < usage s (W ?q)"
    by blast+
  from fails only have a: "ConsiderMaximumWeightRepair_do ?q ?pop (\<lambda>n. 0) = Inl ValueError"
    by blast
  have ne2: "?big \<noteq> []" by simp
  have bad: "\<forall>ind\<in>set ?big.
         length (X ind) \<noteq> length (W ?p) \<and> length (W ?p) \<noteq> 1 \<and> length (X ind) \<noteq> 1"
    by simp
  from repair_failures [OF ne2, where p = ?p and q = ?p and rs = "\<lambda>n. 0"] bad
  have b: "ConsiderMaximumWeightRepair_do ?p ?big (\<lambda>n. 0) = Inl ValueError" by blast
  have ne3: "?two \<noteq> []" by simp
  have ok: "\<forall>ind\<in>set ?two. within_capacity (dtype ?r) (C ?r) (W ?r) (X ind)"
    by (simp add: within_capacity_def row_weight_def mul_broadcast_def)
  from repair_failures [OF ne3, where p = ?r and q = ?r and rs = "\<lambda>n. 0"] ok
  have c: "ConsiderMaximumWeightRepair_do ?r ?two (\<lambda>n. 0) = Inr (?two, \<lambda>n. 0)" by blast
  from none [rule_format, of "[True]"] none [rule_format, of "[False]"]
  have "sint (- 1 :: 64 word) < usage [True] [5]" "sint (- 1 :: 64 word) < usage [False] [5]"
    by simp_all
  with a b c show ?thesis by blast
qed

text \<open>
  Against the claim as it is written. A weight vector of length 1 is broadcast against
  decision vectors of length 2: the repair returns normally although the lengths
  disagree, or raises \<open>IndexError\<close> when the capacity is exceeded and the second item is
  drawn. With a negative weight and a negative capacity the repair fails on an empty
  selection although picking the item would be within capacity. And with two items of
  weight \<open>2\<^sup>6\<^sup>2\<close> and capacity -1 no selection is within capacity, but the computed
  weight of the row that picks both has wrapped around and the repair returns normally.
\<close>

theorem error_conditions_counterexample:
  "length [2 :: 64 word] \<noteq> length [True, True] \<and>
   ConsiderMaximumWeightRepair_do \<lparr>dtype = int64, C = 10, W = [2]\<rparr>
      [\<lparr>X = [True, True], F = None, CV = None\<rparr>] (\<lambda>n. 0)
     = Inr ([\<lparr>X = [True, True], F = None, CV = None\<rparr>], \<lambda>n. 0) \<and>
   ConsiderMaximumWeightRepair_do \<lparr>dtype = int64, C = 3, W = [2]\<rparr>
      [\<lparr>X = [True, True], F = None, CV = None\<rparr>] (\<lambda>n. 1) = Inl IndexError \<and>
   usage [True] [- 5] \<le> sint (- 1 :: 64 word) \<and>
   ConsiderMaximumWeightRepair_do \<lparr>dtype = int64, C = - 1, W = [- 5]\<rparr>
      [\<lparr>X = [False], F = None, CV = None\<rparr>] (\<lambda>n. 0) = Inl ValueError \<and>
   sint (- 1 :: 64 word) < usage [False, False] [4611686018427387904, 4611686018427387904] \<and>
   sint (- 1 :: 64 word) < usage [True, False] [4611686018427387904, 4611686018427387904] \<and>
   sint (- 1 :: 64 word) < usage [False, True] [4611686018427387904, 4611686018427387904] \<and>
   sint (- 1 :: 64 word) < usage [True, True] [4611686018427387904, 4611686018427387904] \<and>
   ConsiderMaximumWeightRepair_do
      \<lparr>dtype = int64, C = - 1, W = [4611686018427387904, 4611686018427387904]\<rparr>
      [\<lparr>X = [True, True], F = None, CV = None\<rparr>] (\<lambda>n. 0)
     = Inr ([\<lparr>X = [True, True], F = None, CV = None\<rparr>], \<lambda>n. 0)"
  by (simp add: ConsiderMaximumWeightRepair_do_def pop_get_X_def pop_set_X_def
      row_weight_def mul_broadcast_def removal_loop.simps remove_item_def
      random_choice_def np_where_def upt_rec usage_def)

end
